theory Spec2Isabelle
  imports Complex_Main "HOL-Library.Word" "HOL-Library.Multiset"
begin

section \<open>Geometry of the standard image package, as the program uses it\<close>

text \<open>
  Go's \<open>int\<close> is modelled by the integers and \<open>float64\<close> by the reals (rounding,
  infinities and NaN are outside the model).  Integer division in Go truncates towards
  zero and panics on a zero divisor; the panic is written out where the program divides.
  \<open>Rectangle.Sub\<close> and \<open>Rectangle.Add\<close> translate a rectangle with the arithmetic of
  64-bit integers: \<open>sub64\<close> and \<open>add64\<close> wrap the difference and the sum of two 64-bit
  values around (\<open>bounds.Sub(image.Pt(1, 1))\<close> of a canvas whose Min corner is at the
  least integer is at the greatest); on integers no Go value holds they are the plain
  difference and sum.  The remaining sums, differences and products of the program are
  on the coordinates of a canvas and its chunks and are taken in the integers.
\<close>

definition in64 :: "int \<Rightarrow> bool" where
  "in64 i = (- 9223372036854775808 \<le> i \<and> i \<le> 9223372036854775807)"

definition wrap64 :: "int \<Rightarrow> int" where
  "wrap64 i = (i + 9223372036854775808) mod 18446744073709551616 - 9223372036854775808"

definition sub64 :: "int \<Rightarrow> int \<Rightarrow> int" where
  "sub64 a b = (if in64 a \<and> in64 b then wrap64 (a - b) else a - b)"

definition add64 :: "int \<Rightarrow> int \<Rightarrow> int" where
  "add64 a b = (if in64 a \<and> in64 b then wrap64 (a + b) else a + b)"

definition quo :: "int \<Rightarrow> int \<Rightarrow> int" where
  "quo a b = sgn a * sgn b * (\<bar>a\<bar> div \<bar>b\<bar>)"

definition trunc :: "real \<Rightarrow> int" where
  \<comment> \<open>the conversion \<open>int(f)\<close> of a float: the fraction is discarded\<close>
  "trunc f = (if f < 0 then \<lceil>f\<rceil> else \<lfloor>f\<rfloor>)"

datatype point = Pt (ptX: int) (ptY: int)

datatype rectangle = Rectangle (Min_X: int) (Min_Y: int) (Max_X: int) (Max_Y: int)

definition ZR :: rectangle where
  "ZR = Rectangle 0 0 0 0"

definition Rect :: "int \<Rightarrow> int \<Rightarrow> int \<Rightarrow> int \<Rightarrow> rectangle" where
  \<comment> \<open>\<open>image.Rect\<close>: the corners are swapped where needed so that Min \<le> Max\<close>
  "Rect x0 y0 x1 y1 =
     Rectangle (if x0 > x1 then x1 else x0) (if y0 > y1 then y1 else y0)
               (if x0 > x1 then x0 else x1) (if y0 > y1 then y0 else y1)"

definition Empty :: "rectangle \<Rightarrow> bool" where
  "Empty r = (Min_X r \<ge> Max_X r \<or> Min_Y r \<ge> Max_Y r)"

definition Intersect :: "rectangle \<Rightarrow> rectangle \<Rightarrow> rectangle" where
  "Intersect r s =
     (let r1 = Rectangle (if Min_X r < Min_X s then Min_X s else Min_X r)
                         (if Min_Y r < Min_Y s then Min_Y s else Min_Y r)
                         (if Max_X r > Max_X s then Max_X s else Max_X r)
                         (if Max_Y r > Max_Y s then Max_Y s else Max_Y r)
      in if Empty r1 then ZR else r1)"

definition Sub :: "rectangle \<Rightarrow> point \<Rightarrow> rectangle" where
  "Sub r p = Rectangle (sub64 (Min_X r) (ptX p)) (sub64 (Min_Y r) (ptY p))
                       (sub64 (Max_X r) (ptX p)) (sub64 (Max_Y r) (ptY p))"

definition Add :: "rectangle \<Rightarrow> point \<Rightarrow> rectangle" where
  "Add r p = Rectangle (add64 (Min_X r) (ptX p)) (add64 (Min_Y r) (ptY p))
                       (add64 (Max_X r) (ptX p)) (add64 (Max_Y r) (ptY p))"

section \<open>The massive image: immutable part and coordinate mapping\<close>

text \<open>
  The struct \<open>Mimage\<close>.  Its fields never change after construction, so an operation or
  a queued \<open>SetMask\<close> that holds a \<open>*Mimage\<close> is modelled as holding the value.  The
  field \<open>cache\<close> is the address of the image's cache in the store defined further down:
  two values with the same address share their chunks, as two pointers to one image do.
\<close>

record mimage =
  bounds :: rectangle
  cache :: nat
  root :: string
  chunkSize :: int
  routines :: int

definition Width :: "mimage \<Rightarrow> int" where
  "Width m = Max_X (bounds m) - Min_X (bounds m)"

definition Height :: "mimage \<Rightarrow> int" where
  "Height m = Max_Y (bounds m) - Min_Y (bounds m)"

definition toChunk :: "mimage \<Rightarrow> int \<Rightarrow> int \<Rightarrow> (int \<times> int \<times> bool) option" where
  \<comment> \<open>\<open>None\<close> is the division-by-zero panic of a zero chunk size\<close>
  "toChunk m x y =
     (if chunkSize m = 0 then None
      else Some (quo x (chunkSize m), quo y (chunkSize m),
                 x \<ge> Min_X (bounds m) \<and> x < Max_Y (bounds m) \<and>
                 y \<ge> Min_Y (bounds m) \<and> y < Max_Y (bounds m)))"

definition chunksWithin :: "mimage \<Rightarrow> rectangle \<Rightarrow> (int \<times> int) list option" where
  \<comment> \<open>the keys in the order the producer goroutine sends them on the channel\<close>
  "chunksWithin m r0 =
     (let r = Intersect r0 (Sub (bounds m) (Pt 1 1)) in
      if Empty r then Some []
      else case toChunk m (Min_X r) (Min_Y r) of
             None \<Rightarrow> None
           | Some (fx, fy, _) \<Rightarrow>
              (case toChunk m (Max_X r) (Max_Y r) of
                 None \<Rightarrow> None
               | Some (lx, ly, _) \<Rightarrow> Some (List.product [fx..lx] [fy..ly])))"

section \<open>Errors\<close>

text \<open>
  A Go \<open>error\<close> is a value; \<open>nil\<close> is \<open>None\<close> of \<open>error option\<close>.
  \<open>Errorf_w_v f e\<close> is the error built by \<open>fmt.Errorf("%w %v", f, e)\<close>: it wraps
  \<open>f\<close> and appends the text of \<open>e\<close>.  A panic (a nil dereference, a division by zero,
  the fatal error of unlocking a lock that is not held) is the result \<open>None\<close> of a
  function returning \<open>option\<close>.
\<close>

datatype error = Err string | Errorf_w_v error error

fun checkErrors_loop :: "error option \<Rightarrow> error option list \<Rightarrow> error option" where
  "checkErrors_loop ferr [] = ferr"
| "checkErrors_loop ferr (err # errs) =
     (case err of
        None \<Rightarrow> checkErrors_loop ferr errs
      | Some e \<Rightarrow>
         (case ferr of
            None \<Rightarrow> checkErrors_loop (Some e) errs
          | Some f \<Rightarrow> checkErrors_loop (Some (Errorf_w_v f e)) errs))"

definition checkErrors :: "error option list \<Rightarrow> error option" where
  \<comment> \<open>the argument is the sequence of values received from the channel until it is closed\<close>
  "checkErrors errs = checkErrors_loop None errs"

section \<open>The drawing library\<close>

text \<open>
  The canvas \<open>*gg.Context\<close> and the standard image types are not part of the repository.
  They are a parameter of the model: \<open>'c\<close> is the state of a canvas, \<open>'p\<close> an image
  (\<open>image.Image\<close>, also the content of a PNG file), \<open>'a\<close> an alpha mask
  (\<open>*image.Alpha\<close>) and \<open>'g\<close> a gradient.  Every method of the library the program
  calls is a field; a method that mutates the canvas returns the new canvas.  Colours are
  the 8-bit RGBA colours of the canvas.
\<close>

datatype RGBA = RGBA "8 word" "8 word" "8 word" "8 word"

record ('c, 'p, 'a, 'g) gglib =
  gg_NewContext :: "int \<Rightarrow> int \<Rightarrow> 'c"
  gg_NewContextForImage :: "'p \<Rightarrow> 'c"
  gg_Image :: "'c \<Rightarrow> 'p"
  gg_AsMask :: "'c \<Rightarrow> 'a"
  gg_SetFillStyle :: "'g \<Rightarrow> 'c \<Rightarrow> 'c"
  gg_SetStrokeStyle :: "'g \<Rightarrow> 'c \<Rightarrow> 'c"
  gg_SetLineWidth :: "real \<Rightarrow> 'c \<Rightarrow> 'c"
  gg_SetColor :: "RGBA \<Rightarrow> 'c \<Rightarrow> 'c"
  gg_SetPixel :: "int \<Rightarrow> int \<Rightarrow> 'c \<Rightarrow> 'c"
  gg_SetMask :: "'a \<Rightarrow> 'c \<Rightarrow> 'c"
  gg_InvertMask :: "'c \<Rightarrow> 'c"
  gg_MoveTo :: "real \<Rightarrow> real \<Rightarrow> 'c \<Rightarrow> 'c"
  gg_LineTo :: "real \<Rightarrow> real \<Rightarrow> 'c \<Rightarrow> 'c"
  gg_ClosePath :: "'c \<Rightarrow> 'c"
  gg_DrawRectangle :: "real \<Rightarrow> real \<Rightarrow> real \<Rightarrow> real \<Rightarrow> 'c \<Rightarrow> 'c"
  gg_RotateAbout :: "real \<Rightarrow> real \<Rightarrow> real \<Rightarrow> 'c \<Rightarrow> 'c"
  gg_DrawEllipse :: "real \<Rightarrow> real \<Rightarrow> real \<Rightarrow> real \<Rightarrow> 'c \<Rightarrow> 'c"
  gg_Fill :: "'c \<Rightarrow> 'c"
  gg_Stroke :: "'c \<Rightarrow> 'c"
  gg_Clear :: "'c \<Rightarrow> 'c"
  gg_DrawImage :: "'p \<Rightarrow> int \<Rightarrow> int \<Rightarrow> 'c \<Rightarrow> 'c"
  img_Bounds :: "'p \<Rightarrow> rectangle"
  img_At :: "'p \<Rightarrow> int \<Rightarrow> int \<Rightarrow> RGBA"
  alpha_Bounds :: "'a \<Rightarrow> rectangle"
  NewRGBA :: "rectangle \<Rightarrow> 'p"
  NewAlpha :: "rectangle \<Rightarrow> 'a"
  draw_Src :: "'p \<Rightarrow> rectangle \<Rightarrow> 'p \<Rightarrow> 'p"
  draw_Src_alpha :: "'a \<Rightarrow> rectangle \<Rightarrow> 'a \<Rightarrow> 'a"

section \<open>The store: contexts, caches and the disk\<close>

text \<open>
  The part of the heap the cache works on.  A \<open>*context\<close> is an address into
  \<open>ctxs\<close> (\<open>nctx\<close> is the next free one), a \<open>*cache\<close> an address into
  \<open>caches\<close>; a function that writes through a pointer returns the new store.  Calls
  run one after another, and a round of a context's eviction loop is a step of its own,
  which may run between any two calls; the interleaving of several goroutines inside one
  call is outside the model.

  \<open>readers\<close> is the number of holders of the read side of \<open>unloadLock\<close>.  The write
  side and \<open>loadLock\<close> are taken and released inside one call (\<open>unload\<close>, \<open>Flush\<close>,
  \<open>maybeLoadImage\<close>), and a call is one step of the model, so they have no field.
\<close>

record 'c context_rec =
  key :: string
  ctxX :: int
  ctxY :: int
  ctx_chunkSize :: int
  edited :: bool
  Img :: "'c option"
  readers :: nat

text \<open>The map \<open>chunks\<close> from key to \<open>*context\<close>, in the order of insertion.\<close>

record cache_rec =
  cache_root :: string
  chunks :: "(string \<times> nat) list"
  cache_chunkSize :: int

text \<open>
  A file is a PNG that decodes to an image, or content on which \<open>gg.LoadPNG\<close> fails
  with an error other than "does not exist".  Encoding and decoding a PNG is taken to be
  lossless.  \<open>unwritable\<close> gives the error \<open>SavePNG\<close> meets on a path, if any;
  \<open>writes\<close> lists the paths \<open>SavePNG\<close> has written, the latest first; \<open>logs\<close> is
  what the eviction loop has printed.
\<close>

datatype 'p disk_file = PNG 'p | Unreadable error

record ('c, 'p) world =
  caches :: "nat \<Rightarrow> cache_rec"
  ctxs :: "nat \<Rightarrow> 'c context_rec"
  nctx :: nat
  files :: "string \<Rightarrow> 'p disk_file option"
  unwritable :: "string \<Rightarrow> error option"
  writes :: "string list"
  logs :: "(string \<times> error) list"

definition upd_ctx :: "nat \<Rightarrow> ('c context_rec \<Rightarrow> 'c context_rec) \<Rightarrow> ('c, 'p) world \<Rightarrow> ('c, 'p) world" where
  \<comment> \<open>a write through the pointer \<open>a\<close>\<close>
  "upd_ctx a f w = w\<lparr>ctxs := (ctxs w)(a := f (ctxs w a))\<rparr>"

section \<open>The chunk context\<close>

definition setEdited :: "nat \<Rightarrow> ('c, 'p) world \<Rightarrow> ('c, 'p) world" where
  "setEdited a w = upd_ctx a (\<lambda>c. c\<lparr>edited := True\<rparr>) w"

definition maybeLoadImage ::
  "('c, 'p, 'a, 'g) gglib \<Rightarrow> nat \<Rightarrow> ('c, 'p) world \<Rightarrow> error option \<times> ('c, 'p) world" where
  "maybeLoadImage G a w =
     (let c = ctxs w a in
      case Img c of
        Some _ \<Rightarrow> (None, w)
      | None \<Rightarrow>
         (case files w (key c) of
            None \<Rightarrow>
              (None, upd_ctx a (\<lambda>c. c\<lparr>Img := Some (gg_NewContext G (ctx_chunkSize c) (ctx_chunkSize c))\<rparr>) w)
          | Some (Unreadable e) \<Rightarrow> (Some e, w)
          | Some (PNG p) \<Rightarrow>
              (None, upd_ctx a (\<lambda>c. c\<lparr>Img := Some (gg_NewContextForImage G p)\<rparr>) w)))"

definition unloadImage ::
  "('c, 'p, 'a, 'g) gglib \<Rightarrow> nat \<Rightarrow> ('c, 'p) world \<Rightarrow> error option \<times> ('c, 'p) world" where
  "unloadImage G a w =
     (let c = ctxs w a in
      case Img c of
        None \<Rightarrow> (None, w)
      | Some i \<Rightarrow>
         if edited c then
           (case unwritable w (key c) of
              Some e \<Rightarrow> (Some e, w)
            | None \<Rightarrow>
               (None, upd_ctx a (\<lambda>c. c\<lparr>Img := None\<rparr>)
                        (w\<lparr>files := (files w)(key c \<mapsto> PNG (gg_Image G i)),
                           writes := key c # writes w\<rparr>)))
         else (None, upd_ctx a (\<lambda>c. c\<lparr>Img := None\<rparr>) w))"

definition unload :: "('c, 'p, 'a, 'g) gglib \<Rightarrow> nat \<Rightarrow> ('c, 'p) world \<Rightarrow> ('c, 'p) world" where
  \<comment> \<open>one round of the eviction loop, from the moment \<open>unloadLock.Lock()\<close> has been
      granted (it is granted only while no reader holds the lock)\<close>
  "unload G a w =
     (case unloadImage G a w of
        (None, w1) \<Rightarrow> w1
      | (Some e, w1) \<Rightarrow> w1\<lparr>logs := (key (ctxs w1 a), e) # logs w1\<rparr>)"

definition with_ctx ::
  "('c, 'p, 'a, 'g) gglib \<Rightarrow> nat \<Rightarrow> ('c, 'p) world \<Rightarrow> error option \<times> ('c, 'p) world" where
  \<comment> \<open>the method \<open>with\<close>: take the read lock, then load\<close>
  "with_ctx G a w = maybeLoadImage G a (upd_ctx a (\<lambda>c. c\<lparr>readers := readers c + 1\<rparr>) w)"

definition Done :: "nat \<Rightarrow> ('c, 'p) world \<Rightarrow> ('c, 'p) world option" where
  \<comment> \<open>\<open>RUnlock\<close> of a lock no reader holds is a fatal error\<close>
  "Done a w =
     (if readers (ctxs w a) = 0 then None
      else Some (upd_ctx a (\<lambda>c. c\<lparr>readers := readers c - 1\<rparr>) w))"

definition newContext :: "string \<Rightarrow> int \<Rightarrow> int \<Rightarrow> int \<Rightarrow> 'c context_rec" where
  "newContext k x y cs =
     \<lparr>key = k, ctxX = x, ctxY = y, ctx_chunkSize = cs, edited = False, Img = None, readers = 0\<rparr>"

section \<open>The cache\<close>

fun itoa_nat :: "nat \<Rightarrow> string" where
  "itoa_nat n =
     (if n < 10 then [''0123456789'' ! n]
      else itoa_nat (n div 10) @ [''0123456789'' ! (n mod 10)])"

declare itoa_nat.simps [simp del]

definition itoa :: "int \<Rightarrow> string" where
  \<comment> \<open>the verb \<open>%d\<close>\<close>
  "itoa i = (if i < 0 then CHR ''-'' # itoa_nat (nat (- i)) else itoa_nat (nat i))"

definition chunk_key :: "string \<Rightarrow> int \<Rightarrow> int \<Rightarrow> string" where
  \<comment> \<open>\<open>filepath.Join(root, fmt.Sprintf("%d.%d.png", x, y))\<close>, for a root that is a clean
      path\<close>
  "chunk_key r x y = (if r = [] then [] else r @ ''/'') @ itoa x @ ''.'' @ itoa y @ ''.png''"

definition newCache :: "string \<Rightarrow> int \<Rightarrow> cache_rec" where
  "newCache r cs = \<lparr>cache_root = r, chunks = [], cache_chunkSize = cs\<rparr>"

definition Load ::
  "('c, 'p, 'a, 'g) gglib \<Rightarrow> nat \<Rightarrow> int \<Rightarrow> int \<Rightarrow> ('c, 'p) world
     \<Rightarrow> nat \<times> error option \<times> ('c, 'p) world" where
  \<comment> \<open>the first component is the \<open>*context\<close> returned; the goroutine started by
      \<open>go ctx.unload()\<close> is the step \<open>unload\<close>, which may run at any later time\<close>
  "Load G cp x y w =
     (let c = caches w cp;
          k = chunk_key (cache_root c) x y
      in case map_of (chunks c) k of
           Some a \<Rightarrow> (a, with_ctx G a w)
         | None \<Rightarrow>
            (let a = nctx w;
                 w1 = w\<lparr>ctxs := (ctxs w)(a := newContext k x y (cache_chunkSize c)),
                        nctx := a + 1,
                        caches := (caches w)(cp := c\<lparr>chunks := chunks c @ [(k, a)]\<rparr>)\<rparr>
             in (a, with_ctx G a w1)))"

fun Flush_loop ::
  "('c, 'p, 'a, 'g) gglib \<Rightarrow> nat list \<Rightarrow> ('c, 'p) world \<Rightarrow> error option \<times> ('c, 'p) world" where
  "Flush_loop G [] w = (None, w)"
| "Flush_loop G (a # as) w =
     (case unloadImage G a w of
        (Some e, w1) \<Rightarrow> (Some e, w1)
      | (None, w1) \<Rightarrow> Flush_loop G as w1)"

definition Flush ::
  "('c, 'p, 'a, 'g) gglib \<Rightarrow> nat \<Rightarrow> ('c, 'p) world \<Rightarrow> error option \<times> ('c, 'p) world" where
  \<comment> \<open>Go ranges over a map in no fixed order; the order of insertion is one such order\<close>
  "Flush G cp w = Flush_loop G (map snd (chunks (caches w cp))) w"

section \<open>The read path\<close>

definition AtOk ::
  "('c, 'p, 'a, 'g) gglib \<Rightarrow> mimage \<Rightarrow> int \<Rightarrow> int \<Rightarrow> ('c, 'p) world
     \<Rightarrow> ((RGBA \<times> error option) \<times> ('c, 'p) world) option" where
  "AtOk G m x y w =
     (case toChunk m x y of
        None \<Rightarrow> None
      | Some (cx, cy, valid) \<Rightarrow>
         if \<not> valid then Some ((RGBA 0 0 0 0, None), w)
         else
           (case Load G (cache m) cx cy w of
              (a, Some e, w1) \<Rightarrow>
                (case Done a w1 of None \<Rightarrow> None | Some w2 \<Rightarrow> Some ((RGBA 0 0 0 0, Some e), w2))
            | (a, None, w1) \<Rightarrow>
                (case Img (ctxs w1 a) of
                   None \<Rightarrow> None
                 | Some i \<Rightarrow>
                    (case Done a w1 of
                       None \<Rightarrow> None
                     | Some w2 \<Rightarrow>
                        Some ((img_At G (gg_Image G i) (x - cx * chunkSize m) (y - cy * chunkSize m),
                               None), w2)))))"

definition At :: "('c, 'p, 'a, 'g) gglib \<Rightarrow> mimage \<Rightarrow> int \<Rightarrow> int \<Rightarrow> ('c, 'p) world
     \<Rightarrow> (RGBA \<times> ('c, 'p) world) option" where
  "At G m x y w = (case AtOk G m x y w of None \<Rightarrow> None | Some ((c, _), w1) \<Rightarrow> Some (c, w1))"

fun Image_loop ::
  "('c, 'p, 'a, 'g) gglib \<Rightarrow> mimage \<Rightarrow> rectangle \<Rightarrow> (int \<times> int) list \<Rightarrow> 'p \<Rightarrow> ('c, 'p) world
     \<Rightarrow> (('p \<times> error option) \<times> ('c, 'p) world) option" where
  "Image_loop G m r [] dst w = Some ((dst, None), w)"
| "Image_loop G m r (coord # rest) dst w =
     (case Load G (cache m) (fst coord) (snd coord) w of
        (a, Some e, w1) \<Rightarrow>
          (case Done a w1 of None \<Rightarrow> None | Some w2 \<Rightarrow> Some ((dst, Some e), w2))
      | (a, None, w1) \<Rightarrow>
          (case Img (ctxs w1 a) of
             None \<Rightarrow> None
           | Some i \<Rightarrow>
              (let img = gg_Image G i;
                   dst1 = draw_Src G dst
                            (Sub (Add (img_Bounds G img)
                                      (Pt (fst coord * chunkSize m) (snd coord * chunkSize m)))
                                 (Pt (Min_X r) (Min_Y r)))
                            img
               in case Done a w1 of
                    None \<Rightarrow> None
                  | Some w2 \<Rightarrow> Image_loop G m r rest dst1 w2)))"

definition Image ::
  "('c, 'p, 'a, 'g) gglib \<Rightarrow> mimage \<Rightarrow> rectangle \<Rightarrow> ('c, 'p) world
     \<Rightarrow> (('p \<times> error option) \<times> ('c, 'p) world) option" where
  "Image G m r w =
     (case chunksWithin m r of
        None \<Rightarrow> None
      | Some ks \<Rightarrow> Image_loop G m r ks (NewRGBA G (Sub r (Pt (Min_X r) (Min_Y r)))) w)"

fun Mask_loop ::
  "('c, 'p, 'a, 'g) gglib \<Rightarrow> mimage \<Rightarrow> rectangle \<Rightarrow> (int \<times> int) list \<Rightarrow> 'a \<Rightarrow> ('c, 'p) world
     \<Rightarrow> (('a \<times> error option) \<times> ('c, 'p) world) option" where
  "Mask_loop G m r [] dst w = Some ((dst, None), w)"
| "Mask_loop G m r (coord # rest) dst w =
     (case Load G (cache m) (fst coord) (snd coord) w of
        (a, Some e, w1) \<Rightarrow>
          (case Done a w1 of None \<Rightarrow> None | Some w2 \<Rightarrow> Some ((dst, Some e), w2))
      | (a, None, w1) \<Rightarrow>
          (case Img (ctxs w1 a) of
             None \<Rightarrow> None
           | Some i \<Rightarrow>
              (let msk = gg_AsMask G i;
                   dst1 = draw_Src_alpha G dst
                            (Sub (Add (alpha_Bounds G msk)
                                      (Pt (fst coord * chunkSize m) (snd coord * chunkSize m)))
                                 (Pt (Min_X r) (Min_Y r)))
                            msk
               in case Done a w1 of
                    None \<Rightarrow> None
                  | Some w2 \<Rightarrow> Mask_loop G m r rest dst1 w2)))"

definition Mask ::
  "('c, 'p, 'a, 'g) gglib \<Rightarrow> mimage \<Rightarrow> rectangle \<Rightarrow> ('c, 'p) world
     \<Rightarrow> (('a \<times> error option) \<times> ('c, 'p) world) option" where
  "Mask G m r w =
     (case chunksWithin m r of
        None \<Rightarrow> None
      | Some ks \<Rightarrow> Mask_loop G m r ks (NewAlpha G (Sub r (Pt (Min_X r) (Min_Y r)))) w)"

section \<open>Operations: the queue and the bounding box\<close>

text \<open>
  An entry of the queue: the function to call and its arguments.  The untyped argument
  list of the source is typed here, so a failing type assertion has no counterpart.
\<close>

datatype ('p, 'g) action =
    setFillStyle 'g
  | setStrokeStyle 'g
  | setLineWidth real
  | setColor RGBA
  | setPixel int int
  | setMask mimage
  | invertMask
  | moveTo real real
  | lineTo real real
  | closePath
  | drawRectangle real real real real
  | rotateAbout real real real
  | drawEllipse real real real real
  | fill
  | stroke
  | clear
  | drawImage 'p int int

record ('p, 'g) operation =
  parent :: mimage
  queue :: "('p, 'g) action list"
  minX :: real
  minY :: real
  maxX :: real
  maxY :: real
  maxlineWidth :: real
  op_routines :: int

definition newOperation :: "mimage \<Rightarrow> ('p, 'g) operation" where
  "newOperation m =
     \<lparr>parent = m, queue = [],
      minX = real_of_int (Width m) + 1, minY = real_of_int (Height m) + 1,
      maxX = 0, maxY = 0, maxlineWidth = 0, op_routines = routines m\<rparr>"

definition minMax :: "real \<Rightarrow> real \<Rightarrow> ('p, 'g) operation \<Rightarrow> ('p, 'g) operation" where
  "minMax x y o1 =
     o1\<lparr>minX := min (minX o1) x, maxX := max (maxX o1) x,
        minY := min (minY o1) y, maxY := max (maxY o1) y\<rparr>"

definition enqueue :: "('p, 'g) action \<Rightarrow> ('p, 'g) operation \<Rightarrow> ('p, 'g) operation" where
  \<comment> \<open>\<open>o.queue = append(o.queue, newDefFunc(...))\<close>\<close>
  "enqueue act o1 = o1\<lparr>queue := queue o1 @ [act]\<rparr>"

definition SetRoutines :: "int \<Rightarrow> ('p, 'g) operation \<Rightarrow> ('p, 'g) operation" where
  "SetRoutines i o1 = o1\<lparr>op_routines := (if i < 1 then 1 else i)\<rparr>"

definition DrawImage ::
  "('c, 'p, 'a, 'g) gglib \<Rightarrow> 'p \<Rightarrow> int \<Rightarrow> int \<Rightarrow> ('p, 'g) operation \<Rightarrow> ('p, 'g) operation" where
  "DrawImage G i x y o1 =
     (let bnds = img_Bounds G i;
          o2 = minMax (real_of_int (x + Min_X bnds)) (real_of_int (y + Min_Y bnds)) o1;
          o3 = minMax (real_of_int (x + Max_X bnds - Min_X bnds))
                      (real_of_int (y + Max_Y bnds - Min_Y bnds)) o2
      in enqueue (drawImage i x y) o3)"

definition Clear :: "('p, 'g) operation \<Rightarrow> ('p, 'g) operation" where
  "Clear o1 =
     (let o2 = enqueue clear o1; b = bounds (parent o2)
      in o2\<lparr>minX := real_of_int (Min_X b), minY := real_of_int (Min_Y b),
            maxX := real_of_int (Max_X b), maxY := real_of_int (Max_Y b)\<rparr>)"

definition SetMask :: "mimage \<Rightarrow> ('p, 'g) operation \<Rightarrow> ('p, 'g) operation" where
  "SetMask other o1 = enqueue (setMask other) o1"

definition InvertMask :: "('p, 'g) operation \<Rightarrow> ('p, 'g) operation" where
  "InvertMask o1 = enqueue invertMask o1"

definition SetFillStyle :: "'g \<Rightarrow> ('p, 'g) operation \<Rightarrow> ('p, 'g) operation" where
  "SetFillStyle g o1 = enqueue (setFillStyle g) o1"

definition SetStrokeStyle :: "'g \<Rightarrow> ('p, 'g) operation \<Rightarrow> ('p, 'g) operation" where
  "SetStrokeStyle g o1 = enqueue (setStrokeStyle g) o1"

definition SetLineWidth :: "real \<Rightarrow> ('p, 'g) operation \<Rightarrow> ('p, 'g) operation" where
  "SetLineWidth w0 o1 =
     (let w = min 1 w0
      in enqueue (setLineWidth w) (o1\<lparr>maxlineWidth := max (maxlineWidth o1) w\<rparr>))"

definition SetColor :: "RGBA \<Rightarrow> ('p, 'g) operation \<Rightarrow> ('p, 'g) operation" where
  "SetColor c o1 = enqueue (setColor c) o1"

definition SetPixel :: "int \<Rightarrow> int \<Rightarrow> ('p, 'g) operation \<Rightarrow> ('p, 'g) operation" where
  "SetPixel x y o1 = enqueue (setPixel x y) (minMax (real_of_int x) (real_of_int y) o1)"

definition MoveTo :: "real \<Rightarrow> real \<Rightarrow> ('p, 'g) operation \<Rightarrow> ('p, 'g) operation" where
  "MoveTo x y o1 = enqueue (moveTo x y) (minMax x y o1)"

definition LineTo :: "real \<Rightarrow> real \<Rightarrow> ('p, 'g) operation \<Rightarrow> ('p, 'g) operation" where
  "LineTo x y o1 = enqueue (lineTo x y) (minMax x y o1)"

definition ClosePath :: "('p, 'g) operation \<Rightarrow> ('p, 'g) operation" where
  "ClosePath o1 = enqueue closePath o1"

definition DrawRectangle ::
  "real \<Rightarrow> real \<Rightarrow> real \<Rightarrow> real \<Rightarrow> ('p, 'g) operation \<Rightarrow> ('p, 'g) operation" where
  "DrawRectangle x y w h o1 =
     enqueue (drawRectangle x y w h) (minMax (x + w) (y + h) (minMax x y o1))"

definition RotateAbout :: "real \<Rightarrow> real \<Rightarrow> real \<Rightarrow> ('p, 'g) operation \<Rightarrow> ('p, 'g) operation" where
  "RotateAbout angle x y o1 = enqueue (rotateAbout angle x y) o1"

definition DrawEllipse ::
  "real \<Rightarrow> real \<Rightarrow> real \<Rightarrow> real \<Rightarrow> ('p, 'g) operation \<Rightarrow> ('p, 'g) operation" where
  "DrawEllipse x y rx ry o1 =
     enqueue (drawEllipse x y rx ry) (minMax (x + rx) (y + ry) (minMax (x - rx) (y - ry) o1))"

definition Fill :: "('p, 'g) operation \<Rightarrow> ('p, 'g) operation" where
  "Fill o1 = enqueue fill o1"

definition Stroke :: "('p, 'g) operation \<Rightarrow> ('p, 'g) operation" where
  "Stroke o1 = enqueue stroke o1"

text \<open>
  A queuing call is named by the method and the arguments the caller passes, written with
  the constructors of the queue's entries; \<open>invoke\<close> makes the call.  A sequence of calls
  on a fresh operation is \<open>calls\<close>.
\<close>

fun invoke ::
  "('c, 'p, 'a, 'g) gglib \<Rightarrow> ('p, 'g) action \<Rightarrow> ('p, 'g) operation \<Rightarrow> ('p, 'g) operation" where
  "invoke G (setFillStyle g) o1 = SetFillStyle g o1"
| "invoke G (setStrokeStyle g) o1 = SetStrokeStyle g o1"
| "invoke G (setLineWidth w) o1 = SetLineWidth w o1"
| "invoke G (setColor c) o1 = SetColor c o1"
| "invoke G (setPixel x y) o1 = SetPixel x y o1"
| "invoke G (setMask m) o1 = SetMask m o1"
| "invoke G invertMask o1 = InvertMask o1"
| "invoke G (moveTo x y) o1 = MoveTo x y o1"
| "invoke G (lineTo x y) o1 = LineTo x y o1"
| "invoke G closePath o1 = ClosePath o1"
| "invoke G (drawRectangle x y w h) o1 = DrawRectangle x y w h o1"
| "invoke G (rotateAbout angle x y) o1 = RotateAbout angle x y o1"
| "invoke G (drawEllipse x y rx ry) o1 = DrawEllipse x y rx ry o1"
| "invoke G fill o1 = Fill o1"
| "invoke G stroke o1 = Stroke o1"
| "invoke G clear o1 = Clear o1"
| "invoke G (drawImage i x y) o1 = DrawImage G i x y o1"

definition calls ::
  "('c, 'p, 'a, 'g) gglib \<Rightarrow> ('p, 'g) action list \<Rightarrow> ('p, 'g) operation \<Rightarrow> ('p, 'g) operation" where
  "calls G cs o1 = foldl (\<lambda>o2 c. invoke G c o2) o1 cs"

fun touches_box :: "('p, 'g) action \<Rightarrow> bool" where
  \<comment> \<open>the calls that go through \<open>minMax\<close> or set the box themselves\<close>
  "touches_box (setPixel x y) = True"
| "touches_box (moveTo x y) = True"
| "touches_box (lineTo x y) = True"
| "touches_box (drawRectangle x y w h) = True"
| "touches_box (drawEllipse x y rx ry) = True"
| "touches_box clear = True"
| "touches_box (drawImage i x y) = True"
| "touches_box _ = False"

fun widths :: "('p, 'g) action list \<Rightarrow> real list" where
  \<comment> \<open>the widths passed to \<open>SetLineWidth\<close> in a sequence of calls\<close>
  "widths [] = []"
| "widths (setLineWidth w # cs) = w # widths cs"
| "widths (_ # cs) = widths cs"

section \<open>Operations: execution\<close>

definition on_Img ::
  "nat \<Rightarrow> ('c \<Rightarrow> 'c) \<Rightarrow> ('c, 'p) world \<Rightarrow> (error option \<times> ('c, 'p) world) option" where
  \<comment> \<open>a method call on \<open>ctx.Img\<close>; the pointer must not be nil\<close>
  "on_Img a f w =
     (case Img (ctxs w a) of
        None \<Rightarrow> None
      | Some i \<Rightarrow> Some (None, upd_ctx a (\<lambda>c. c\<lparr>Img := Some (f i)\<rparr>) w))"

definition on_Img_edited ::
  "nat \<Rightarrow> ('c \<Rightarrow> 'c) \<Rightarrow> ('c, 'p) world \<Rightarrow> (error option \<times> ('c, 'p) world) option" where
  \<comment> \<open>the same, followed by \<open>ctx.setEdited()\<close>\<close>
  "on_Img_edited a f w =
     (case on_Img a f w of None \<Rightarrow> None | Some (e, w1) \<Rightarrow> Some (e, setEdited a w1))"

fun apply_action ::
  "('c, 'p, 'a, 'g) gglib \<Rightarrow> nat \<Rightarrow> int \<Rightarrow> int \<Rightarrow> ('p, 'g) action \<Rightarrow> ('c, 'p) world
     \<Rightarrow> (error option \<times> ('c, 'p) world) option" where
  "apply_action G a offXI offYI (setFillStyle g) w = on_Img a (gg_SetFillStyle G g) w"
| "apply_action G a offXI offYI (setStrokeStyle g) w = on_Img a (gg_SetStrokeStyle G g) w"
| "apply_action G a offXI offYI (setLineWidth lw) w = on_Img a (gg_SetLineWidth G lw) w"
| "apply_action G a offXI offYI (setColor c) w = on_Img a (gg_SetColor G c) w"
| "apply_action G a offXI offYI (setPixel x y) w =
     on_Img_edited a (gg_SetPixel G (x - offXI) (y - offYI)) w"
| "apply_action G a offXI offYI (setMask other) w =
     (case Img (ctxs w a) of
        None \<Rightarrow> None
      | Some i \<Rightarrow>
         (let mbounds = img_Bounds G (gg_Image G i)
          in case Mask G other (Add mbounds (Pt offXI offYI)) w of
               None \<Rightarrow> None
             | Some ((mk, Some e), w1) \<Rightarrow> Some (Some e, w1)
             | Some ((mk, None), w1) \<Rightarrow> on_Img a (gg_SetMask G mk) w1))"
| "apply_action G a offXI offYI invertMask w = on_Img a (gg_InvertMask G) w"
| "apply_action G a offXI offYI (moveTo x y) w =
     on_Img a (gg_MoveTo G (x - real_of_int offXI) (y - real_of_int offYI)) w"
| "apply_action G a offXI offYI (lineTo x y) w =
     on_Img a (gg_LineTo G (x - real_of_int offXI) (y - real_of_int offYI)) w"
| "apply_action G a offXI offYI closePath w = on_Img a (gg_ClosePath G) w"
| "apply_action G a offXI offYI (drawRectangle x y w0 h) w =
     on_Img_edited a (gg_DrawRectangle G (x - real_of_int offXI) (y - real_of_int offYI) w0 h) w"
| "apply_action G a offXI offYI (rotateAbout angle x y) w =
     on_Img a (gg_RotateAbout G angle (x - real_of_int offXI) (y - real_of_int offYI)) w"
| "apply_action G a offXI offYI (drawEllipse x y rx ry) w =
     on_Img_edited a (gg_DrawEllipse G (x - real_of_int offXI) (y - real_of_int offYI) rx ry) w"
| "apply_action G a offXI offYI fill w = on_Img_edited a (gg_Fill G) w"
| "apply_action G a offXI offYI stroke w = on_Img_edited a (gg_Stroke G) w"
| "apply_action G a offXI offYI clear w = on_Img_edited a (gg_Clear G) w"
| "apply_action G a offXI offYI (drawImage i x y) w =
     on_Img_edited a (gg_DrawImage G i (x - offXI) (y - offYI)) w"

fun apply_loop ::
  "('c, 'p, 'a, 'g) gglib \<Rightarrow> nat \<Rightarrow> int \<Rightarrow> int \<Rightarrow> ('p, 'g) action list \<Rightarrow> ('c, 'p) world
     \<Rightarrow> (error option \<times> ('c, 'p) world) option" where
  "apply_loop G a offXI offYI [] w = Some (None, w)"
| "apply_loop G a offXI offYI (act # rest) w =
     (case apply_action G a offXI offYI act w of
        None \<Rightarrow> None
      | Some (Some e, w1) \<Rightarrow> Some (Some e, w1)
      | Some (None, w1) \<Rightarrow> apply_loop G a offXI offYI rest w1)"

definition apply_chunk ::
  "('c, 'p, 'a, 'g) gglib \<Rightarrow> ('p, 'g) operation \<Rightarrow> int \<Rightarrow> int \<Rightarrow> ('c, 'p) world
     \<Rightarrow> (error option \<times> ('c, 'p) world) option" where
  \<comment> \<open>the method \<open>apply\<close>; the deferred \<open>ctx.Done()\<close> runs last on every return\<close>
  "apply_chunk G o1 chunkX chunkY w =
     (case Load G (cache (parent o1)) chunkX chunkY w of
        (a, err, w1) \<Rightarrow>
          (case (case err of
                   Some e \<Rightarrow> Some (Some e, w1)
                 | None \<Rightarrow>
                     apply_loop G a (chunkX * chunkSize (parent o1)) (chunkY * chunkSize (parent o1))
                       (queue o1) w1) of
             None \<Rightarrow> None
           | Some (res, w2) \<Rightarrow>
              (case Done a w2 of None \<Rightarrow> None | Some w3 \<Rightarrow> Some (res, w3))))"

definition clampDown :: "('p, 'g) operation \<Rightarrow> ('p, 'g) operation" where
  \<comment> \<open>the first four assignments of \<open>Do\<close>\<close>
  "clampDown o1 =
     o1\<lparr>minX := max 0 (minX o1 - maxlineWidth o1),
        maxX := min (real_of_int (Width (parent o1))) (maxX o1 + maxlineWidth o1),
        minY := max 0 (minY o1 - maxlineWidth o1),
        maxY := min (real_of_int (Height (parent o1))) (maxY o1 + maxlineWidth o1)\<rparr>"

definition work_rect :: "('p, 'g) operation \<Rightarrow> rectangle" where
  "work_rect o1 = Rect (trunc (minX o1)) (trunc (minY o1)) (trunc (maxX o1)) (trunc (maxY o1))"

text \<open>
  The goroutines of \<open>Do\<close> take the keys from one channel and send their errors on
  another; a goroutine goes on with the next key after an error.  \<open>Do_worker\<close> and
  \<open>Do\<close> are the run in which the goroutines take turns, each key being applied and
  its error received before the next key is taken: the keys are applied in the order they
  are sent, and the errors arrive in that order.  With one goroutine every run returns
  what this one does.  The runs under every schedule of several goroutines are
  \<open>Do_sched\<close> further down.
\<close>

fun Do_worker ::
  "('c, 'p, 'a, 'g) gglib \<Rightarrow> ('p, 'g) operation \<Rightarrow> (int \<times> int) list \<Rightarrow> ('c, 'p) world
     \<Rightarrow> (error list \<times> ('c, 'p) world) option" where
  "Do_worker G o1 [] w = Some ([], w)"
| "Do_worker G o1 (coords # rest) w =
     (case apply_chunk G o1 (fst coords) (snd coords) w of
        None \<Rightarrow> None
      | Some (err, w1) \<Rightarrow>
         (case Do_worker G o1 rest w1 of
            None \<Rightarrow> None
          | Some (errs, w2) \<Rightarrow> Some ((case err of None \<Rightarrow> [] | Some e \<Rightarrow> [e]) @ errs, w2)))"

definition Do ::
  "('c, 'p, 'a, 'g) gglib \<Rightarrow> ('p, 'g) operation \<Rightarrow> ('c, 'p) world
     \<Rightarrow> (error option \<times> ('p, 'g) operation \<times> ('c, 'p) world) option" where
  \<comment> \<open>the result holds the error returned, the operation as \<open>Do\<close> leaves it, and the store;
      with no worker (\<open>routines \<le> 0\<close>) nothing is received and nothing is applied\<close>
  "Do G o0 w =
     (let o1 = clampDown o0 in
      case chunksWithin (parent o1) (work_rect o1) of
        None \<Rightarrow> None
      | Some work \<Rightarrow>
         if op_routines o1 \<le> 0 then Some (checkErrors [], o1, w)
         else
           (case Do_worker G o1 work w of
              None \<Rightarrow> None
            | Some (errs, w1) \<Rightarrow> Some (checkErrors (map Some errs), o1, w1)))"

text \<open>
  All the runs of \<open>Do\<close>.  Each of the \<open>routines\<close> goroutines is at one of three
  points of its loop: about to receive a key from \<open>work\<close>, about to call \<open>apply\<close> on
  the key it holds, or about to send the error it holds on \<open>errs\<close>.  The state of the
  pool holds the keys not yet received (the channel hands them out in the order they are
  sent), the point each goroutine is at, the errors \<open>checkErrors\<close> has received so far in
  the order of their arrival, and the store; \<open>trail\<close> records, for the statements, the
  keys applied so far with their results, in the order of application.  A schedule is the
  list of the goroutines in the order in which they take a step; one call of \<open>apply\<close>
  is taken as one step.  A goroutine that finds \<open>work\<close> closed and drained leaves its
  loop; \<open>Do\<close> returns once all have (with no goroutine at all, at once).  \<open>Do\<close>
  above is the run in which each key is applied, and its error received, before the next
  key is taken.
\<close>

datatype routine = Receiving | Applying "int \<times> int" | Sending error

record ('c, 'p) pool =
  todo :: "(int \<times> int) list"
  workers :: "routine list"
  got :: "error list"
  trail :: "((int \<times> int) \<times> error option) list"
  pstore :: "('c, 'p) world"

definition pool_step ::
  "('c, 'p, 'a, 'g) gglib \<Rightarrow> ('p, 'g) operation \<Rightarrow> nat \<Rightarrow> ('c, 'p) pool \<Rightarrow> ('c, 'p) pool option" where
  \<comment> \<open>goroutine \<open>i\<close> takes its next step; \<open>None\<close> is a panic; a goroutine that has left
      its loop (or does not exist) leaves the state as it is\<close>
  "pool_step G o1 i s =
     (if length (workers s) \<le> i then Some s
      else case workers s ! i of
        Receiving \<Rightarrow>
          (case todo s of
             [] \<Rightarrow> Some s
           | coords # rest \<Rightarrow> Some (s\<lparr>todo := rest, workers := (workers s)[i := Applying coords]\<rparr>))
      | Applying coords \<Rightarrow>
          (case apply_chunk G o1 (fst coords) (snd coords) (pstore s) of
             None \<Rightarrow> None
           | Some (err, w1) \<Rightarrow>
               Some (s\<lparr>workers := (workers s)[i := (case err of None \<Rightarrow> Receiving | Some e \<Rightarrow> Sending e)],
                       trail := trail s @ [(coords, err)], pstore := w1\<rparr>))
      | Sending e \<Rightarrow> Some (s\<lparr>workers := (workers s)[i := Receiving], got := got s @ [e]\<rparr>))"

fun pool_run ::
  "('c, 'p, 'a, 'g) gglib \<Rightarrow> ('p, 'g) operation \<Rightarrow> nat list \<Rightarrow> ('c, 'p) pool \<Rightarrow> ('c, 'p) pool option" where
  "pool_run G o1 [] s = Some s"
| "pool_run G o1 (i # sched) s =
     (case pool_step G o1 i s of None \<Rightarrow> None | Some s1 \<Rightarrow> pool_run G o1 sched s1)"

definition finished :: "('c, 'p) pool \<Rightarrow> bool" where
  \<comment> \<open>every goroutine has left its loop: \<open>wg.Wait()\<close> returns and \<open>errs\<close> is closed\<close>
  "finished s = ((\<forall>r\<in>set (workers s). r = Receiving) \<and> (workers s = [] \<or> todo s = []))"

definition Do_pool ::
  "('c, 'p, 'a, 'g) gglib \<Rightarrow> nat list \<Rightarrow> ('p, 'g) operation \<Rightarrow> ('c, 'p) world \<Rightarrow> ('c, 'p) pool option" where
  \<comment> \<open>the pool of \<open>Do\<close> after the steps of a schedule\<close>
  "Do_pool G sched o0 w =
     (let o1 = clampDown o0 in
      case chunksWithin (parent o1) (work_rect o1) of
        None \<Rightarrow> None
      | Some work \<Rightarrow>
          pool_run G o1 sched
            \<lparr>todo = work, workers = replicate (nat (op_routines o1)) Receiving, got = [], trail = [],
             pstore = w\<rparr>)"

datatype 'r outcome = Panicked | Running | Returned 'r

definition Do_sched ::
  "('c, 'p, 'a, 'g) gglib \<Rightarrow> nat list \<Rightarrow> ('p, 'g) operation \<Rightarrow> ('c, 'p) world
     \<Rightarrow> (error option \<times> ('p, 'g) operation \<times> ('c, 'p) world) outcome" where
  \<comment> \<open>what \<open>Do\<close> has returned after the steps of a schedule: the errors received, rolled up
      by \<open>checkErrors\<close> in the order of their arrival\<close>
  "Do_sched G sched o0 w =
     (case Do_pool G sched o0 w of
        None \<Rightarrow> Panicked
      | Some s \<Rightarrow>
          if finished s then Returned (checkErrors (map Some (got s)), clampDown o0, pstore s)
          else Running)"

section \<open>Predicates and observers used in the statements\<close>

text \<open>
  \<open>non_nil\<close> keeps the errors of a list of results.  \<open>disk_canvas\<close> is the canvas a
  load of a chunk from the disk yields.  \<open>wf_world\<close> says that every pointer in a
  registry points to an allocated context.  Three relations between the store before and
  after a call: \<open>reg_grows\<close> (no registry loses or changes an entry), \<open>balanced\<close>
  (moreover every context has as many holders as before, and a new context has none) and
  \<open>read_frame\<close> (moreover the disk, the trace of writes and the log are the same, and
  every context is unchanged or has been loaded from the disk).  \<open>release\<close> is the
  effect of a \<open>Done\<close> that succeeds, \<open>alloc_ctx\<close> the insertion \<open>Load\<close> makes for
  a new key.  \<open>masks_ok\<close> excludes a mask image with chunk size zero (on which
  \<open>toChunk\<close> panics).  \<open>applications\<close> lists the results of \<open>apply\<close> on the keys of
  a work list, in turn.
\<close>

fun non_nil :: "error option list \<Rightarrow> error list" where
  "non_nil [] = []"
| "non_nil (None # errs) = non_nil errs"
| "non_nil (Some e # errs) = e # non_nil errs"

definition disk_canvas ::
  "('c, 'p, 'a, 'g) gglib \<Rightarrow> (string \<Rightarrow> 'p disk_file option) \<Rightarrow> 'c context_rec \<Rightarrow> 'c option" where
  "disk_canvas G fs c =
     (case fs (key c) of
        None \<Rightarrow> Some (gg_NewContext G (ctx_chunkSize c) (ctx_chunkSize c))
      | Some (Unreadable e) \<Rightarrow> None
      | Some (PNG p) \<Rightarrow> Some (gg_NewContextForImage G p))"

definition wf_world :: "('c, 'p) world \<Rightarrow> bool" where
  "wf_world w = (\<forall>cp k a. map_of (chunks (caches w cp)) k = Some a \<longrightarrow> a < nctx w)"

definition reg_grows :: "('c, 'p) world \<Rightarrow> ('c, 'p) world \<Rightarrow> bool" where
  "reg_grows w w' =
     (nctx w \<le> nctx w' \<and>
      (\<forall>cp. cache_root (caches w' cp) = cache_root (caches w cp) \<and>
            cache_chunkSize (caches w' cp) = cache_chunkSize (caches w cp)) \<and>
      (\<forall>cp k a. map_of (chunks (caches w cp)) k = Some a \<longrightarrow>
                 map_of (chunks (caches w' cp)) k = Some a) \<and>
      (\<forall>cp. distinct (map fst (chunks (caches w cp))) \<longrightarrow>
            distinct (map fst (chunks (caches w' cp)))) \<and>
      (wf_world w \<longrightarrow> wf_world w'))"

definition balanced :: "('c, 'p) world \<Rightarrow> ('c, 'p) world \<Rightarrow> bool" where
  "balanced w w' =
     (reg_grows w w' \<and>
      (\<forall>b<nctx w. readers (ctxs w' b) = readers (ctxs w b)) \<and>
      (\<forall>b. nctx w \<le> b \<and> b < nctx w' \<longrightarrow> readers (ctxs w' b) = 0))"

definition ctx_read_ok ::
  "('c, 'p, 'a, 'g) gglib \<Rightarrow> (string \<Rightarrow> 'p disk_file option) \<Rightarrow> 'c context_rec \<Rightarrow> 'c context_rec \<Rightarrow> bool" where
  "ctx_read_ok G fs c c' = (c' = c \<or> (Img c = None \<and> c' = c\<lparr>Img := disk_canvas G fs c\<rparr>))"

definition read_frame ::
  "('c, 'p, 'a, 'g) gglib \<Rightarrow> ('c, 'p) world \<Rightarrow> ('c, 'p) world \<Rightarrow> bool" where
  "read_frame G w w' =
     (balanced w w' \<and>
      files w' = files w \<and> unwritable w' = unwritable w \<and> writes w' = writes w \<and>
      logs w' = logs w \<and>
      (\<forall>b<nctx w. ctx_read_ok G (files w) (ctxs w b) (ctxs w' b)) \<and>
      (\<forall>b. nctx w \<le> b \<and> b < nctx w' \<longrightarrow>
           (\<exists>k x y cs. ctx_read_ok G (files w) (newContext k x y cs) (ctxs w' b))))"

definition alloc_ctx :: "nat \<Rightarrow> string \<Rightarrow> int \<Rightarrow> int \<Rightarrow> ('c, 'p) world \<Rightarrow> ('c, 'p) world" where
  "alloc_ctx cp k x y w =
     w\<lparr>ctxs := (ctxs w)(nctx w := newContext k x y (cache_chunkSize (caches w cp))),
       nctx := nctx w + 1,
       caches := (caches w)(cp := (caches w cp)\<lparr>chunks := chunks (caches w cp) @ [(k, nctx w)]\<rparr>)\<rparr>"

definition release :: "nat \<Rightarrow> ('c, 'p) world \<Rightarrow> ('c, 'p) world" where
  "release a w = upd_ctx a (\<lambda>c. c\<lparr>readers := readers c - 1\<rparr>) w"

definition masks_ok :: "('p, 'g) action list \<Rightarrow> bool" where
  "masks_ok q = (\<forall>other. setMask other \<in> set q \<longrightarrow> chunkSize other \<noteq> 0)"

fun applications ::
  "('c, 'p, 'a, 'g) gglib \<Rightarrow> ('p, 'g) operation \<Rightarrow> (int \<times> int) list \<Rightarrow> ('c, 'p) world
     \<Rightarrow> error option list" where
  "applications G o1 [] w = []"
| "applications G o1 (coords # rest) w =
     (case apply_chunk G o1 (fst coords) (snd coords) w of
        None \<Rightarrow> []
      | Some (err, w1) \<Rightarrow> err # applications G o1 rest w1)"

text \<open>
  \<open>holding\<close> and \<open>sending\<close> collect the keys and the errors the goroutines of a pool
  hold.  \<open>pool_inv\<close> relates a pool of \<open>Do\<close> to the store and the work list it started
  from: every key of the work list is still to be received, held by a goroutine or applied,
  and every error an application has returned is held by a goroutine or has arrived.
  \<open>canvas64\<close> says that the coordinates of a canvas are 64-bit values above the least
  (so that \<open>bounds.Sub(image.Pt(1, 1))\<close> does not wrap around).
\<close>

definition holding :: "routine list \<Rightarrow> (int \<times> int) multiset" where
  "holding rs = sum_list (map (\<lambda>r. case r of Applying coords \<Rightarrow> {#coords#} | _ \<Rightarrow> {#}) rs)"

definition sending :: "routine list \<Rightarrow> error multiset" where
  "sending rs = sum_list (map (\<lambda>r. case r of Sending e \<Rightarrow> {#e#} | _ \<Rightarrow> {#}) rs)"

definition pool_inv :: "('c, 'p) world \<Rightarrow> (int \<times> int) list \<Rightarrow> ('c, 'p) pool \<Rightarrow> bool" where
  "pool_inv w0 work s =
     (balanced w0 (pstore s) \<and>
      mset (map fst (trail s)) + holding (workers s) + mset (todo s) = mset work \<and>
      mset (got s) + sending (workers s) = mset (non_nil (map snd (trail s))))"

definition canvas64 :: "mimage \<Rightarrow> bool" where
  "canvas64 m =
     (\<forall>c\<in>{Min_X (bounds m), Min_Y (bounds m), Max_X (bounds m), Max_Y (bounds m)}.
        - 9223372036854775808 < c \<and> c \<le> 9223372036854775807)"

section \<open>Runs of a program\<close>

text \<open>
  The calls a program can make on a store, and the rounds of the eviction loops, which the
  scheduler may run between any two calls.  \<open>run\<close> makes them in turn; \<open>None\<close> is a
  panic.
\<close>

datatype ('p, 'g) event =
    Ev_Load nat int int
  | Ev_Done nat
  | Ev_unload nat
  | Ev_Flush nat
  | Ev_AtOk mimage int int
  | Ev_Image mimage rectangle
  | Ev_Mask mimage rectangle
  | Ev_Do "('p, 'g) operation"

fun step ::
  "('c, 'p, 'a, 'g) gglib \<Rightarrow> ('p, 'g) event \<Rightarrow> ('c, 'p) world \<Rightarrow> ('c, 'p) world option" where
  "step G (Ev_Load cp x y) w = (case Load G cp x y w of (a, e, w1) \<Rightarrow> Some w1)"
| "step G (Ev_Done a) w = Done a w"
| "step G (Ev_unload a) w = Some (unload G a w)"
| "step G (Ev_Flush cp) w = Some (snd (Flush G cp w))"
| "step G (Ev_AtOk m x y) w = map_option snd (AtOk G m x y w)"
| "step G (Ev_Image m r) w = map_option snd (Image G m r w)"
| "step G (Ev_Mask m r) w = map_option snd (Mask G m r w)"
| "step G (Ev_Do o1) w = map_option (\<lambda>r. snd (snd r)) (Do G o1 w)"

fun run ::
  "('c, 'p, 'a, 'g) gglib \<Rightarrow> ('p, 'g) event list \<Rightarrow> ('c, 'p) world \<Rightarrow> ('c, 'p) world option" where
  "run G [] w = Some w"
| "run G (ev # evs) w = (case step G ev w of None \<Rightarrow> None | Some w1 \<Rightarrow> run G evs w1)"

text \<open>
  \<open>canvas_of\<close> is the pixel data of a chunk as a holder of the chunk gets it: the
  canvas in memory, or else the canvas a load from the disk yields.
  \<open>unchanged_by_read\<close> is what a read leaves as it was: the disk and the trace of writes,
  the dirty flag and the pixel data of every context (a context the read has created is
  not dirty), so that an eviction after the read writes no chunk whose flag is clear.
\<close>

definition canvas_of :: "('c, 'p, 'a, 'g) gglib \<Rightarrow> ('c, 'p) world \<Rightarrow> nat \<Rightarrow> 'c option" where
  "canvas_of G w b =
     (case Img (ctxs w b) of Some i \<Rightarrow> Some i | None \<Rightarrow> disk_canvas G (files w) (ctxs w b))"

definition unchanged_by_read ::
  "('c, 'p, 'a, 'g) gglib \<Rightarrow> ('c, 'p) world \<Rightarrow> ('c, 'p) world \<Rightarrow> bool" where
  "unchanged_by_read G w w' =
     (files w' = files w \<and> writes w' = writes w \<and>
      (\<forall>b<nctx w. edited (ctxs w' b) = edited (ctxs w b) \<and> canvas_of G w' b = canvas_of G w b) \<and>
      (\<forall>b. nctx w \<le> b \<and> b < nctx w' \<longrightarrow> \<not> edited (ctxs w' b)) \<and>
      (\<forall>b<nctx w'. \<not> edited (ctxs w' b) \<longrightarrow>
           writes (unload G b w') = writes w' \<and> files (unload G b w') = files w'))"

section \<open>Concrete images used to evaluate the definitions\<close>

definition wide_image :: mimage where
  \<comment> \<open>a canvas 10 wide and 5 high, cut into chunks of 5\<close>
  "wide_image = \<lparr>bounds = Rect 0 0 10 5, cache = 0, root = ''/tmp/wide'', chunkSize = 5, routines = 4\<rparr>"

definition example_image :: mimage where
  \<comment> \<open>the canvas of the README: 1000 by 1000, chunks of 500\<close>
  "example_image = \<lparr>bounds = Rect 0 0 1000 1000, cache = 0, root = ''/tmp/mimage'', chunkSize = 500, routines = 4\<rparr>"

text \<open>
  A small implementation of the drawing library, on which the theorems are evaluated: a
  canvas holds its pixels and the pen colour.  \<open>SetColor\<close>, \<open>SetPixel\<close> and
  \<open>Clear\<close> act as in the library (a new canvas is transparent, a point outside the image
  is ignored); the path, style and mask calls are not rendered.  \<open>fresh_world\<close> is the
  store of a program that has just created \<open>small_image\<close>; \<open>red_pixel_op\<close> sets one
  pixel, \<open>red_dot_op\<close> sets a line width first.
\<close>

record px_image =
  im_bounds :: rectangle
  im_pix :: "int \<times> int \<Rightarrow> RGBA"

record px_canvas =
  im :: px_image
  pen :: RGBA

definition in_rect :: "rectangle \<Rightarrow> int \<Rightarrow> int \<Rightarrow> bool" where
  "in_rect r x y = (Min_X r \<le> x \<and> x < Max_X r \<and> Min_Y r \<le> y \<and> y < Max_Y r)"

definition px_At :: "px_image \<Rightarrow> int \<Rightarrow> int \<Rightarrow> RGBA" where
  "px_At p x y = (if in_rect (im_bounds p) x y then im_pix p (x, y) else RGBA 0 0 0 0)"

definition px_blank :: "rectangle \<Rightarrow> px_image" where
  "px_blank r = \<lparr>im_bounds = r, im_pix = (\<lambda>_. RGBA 0 0 0 0)\<rparr>"

definition px_draw :: "px_image \<Rightarrow> rectangle \<Rightarrow> px_image \<Rightarrow> px_image" where
  "px_draw dst r src =
     dst\<lparr>im_pix := (\<lambda>(x, y).
            if in_rect r x y \<and> in_rect (im_bounds dst) x y \<and>
               in_rect (im_bounds src) (x - Min_X r) (y - Min_Y r)
            then im_pix src (x - Min_X r, y - Min_Y r)
            else im_pix dst (x, y))\<rparr>"

definition px_SetPixel :: "int \<Rightarrow> int \<Rightarrow> px_canvas \<Rightarrow> px_canvas" where
  "px_SetPixel x y c =
     (if in_rect (im_bounds (im c)) x y
      then c\<lparr>im := (im c)\<lparr>im_pix := (im_pix (im c))((x, y) := pen c)\<rparr>\<rparr>
      else c)"

definition pixel_gg :: "(px_canvas, px_image, px_image, unit) gglib" where
  "pixel_gg =
     \<lparr>gg_NewContext = (\<lambda>w h. \<lparr>im = px_blank (Rect 0 0 w h), pen = RGBA 0 0 0 0\<rparr>),
      gg_NewContextForImage = (\<lambda>p. \<lparr>im = p, pen = RGBA 0 0 0 0\<rparr>),
      gg_Image = im,
      gg_AsMask = im,
      gg_SetFillStyle = (\<lambda>g c. c),
      gg_SetStrokeStyle = (\<lambda>g c. c),
      gg_SetLineWidth = (\<lambda>lw c. c),
      gg_SetColor = (\<lambda>col c. c\<lparr>pen := col\<rparr>),
      gg_SetPixel = px_SetPixel,
      gg_SetMask = (\<lambda>mk c. c),
      gg_InvertMask = (\<lambda>c. c),
      gg_MoveTo = (\<lambda>x y c. c),
      gg_LineTo = (\<lambda>x y c. c),
      gg_ClosePath = (\<lambda>c. c),
      gg_DrawRectangle = (\<lambda>x y w h c. c),
      gg_RotateAbout = (\<lambda>angle x y c. c),
      gg_DrawEllipse = (\<lambda>x y rx ry c. c),
      gg_Fill = (\<lambda>c. c),
      gg_Stroke = (\<lambda>c. c),
      gg_Clear = (\<lambda>c. c\<lparr>im := (im c)\<lparr>im_pix := (\<lambda>_. pen c)\<rparr>\<rparr>),
      gg_DrawImage = (\<lambda>i x y c. c),
      img_Bounds = im_bounds,
      img_At = px_At,
      alpha_Bounds = im_bounds,
      NewRGBA = px_blank,
      NewAlpha = px_blank,
      draw_Src = px_draw,
      draw_Src_alpha = px_draw\<rparr>"

definition small_image :: mimage where
  "small_image = \<lparr>bounds = Rect 0 0 10 10, cache = 0, root = ''/tmp/m'', chunkSize = 5, routines = 1\<rparr>"

definition fresh_world :: "(px_canvas, px_image) world" where
  "fresh_world =
     \<lparr>caches = (\<lambda>_. newCache ''/tmp/m'' 5), ctxs = (\<lambda>_. newContext [] 0 0 0), nctx = 0,
      files = (\<lambda>_. None), unwritable = (\<lambda>_. None), writes = [], logs = []\<rparr>"

definition red :: RGBA where
  "red = RGBA 255 0 0 255"

definition red_pixel_op :: "(px_image, unit) operation" where
  "red_pixel_op = SetPixel 3 3 (SetColor red (newOperation small_image))"

definition red_dot_op :: "(px_image, unit) operation" where
  "red_dot_op = SetPixel 3 3 (SetLineWidth 1 (SetColor red (newOperation small_image)))"

text \<open>
  \<open>shifted_image\<close> is a canvas whose Min corner is not the origin.  In
  \<open>corrupt_world\<close> the files of chunks (0,0) and (1,1) cannot be decoded; \<open>clear_op\<close>
  clears the whole canvas.  \<open>mask_image\<close> is a second image with a cache of its own;
  in \<open>mask_world\<close> the file of its chunk (0,0) cannot be decoded.  \<open>masked_op\<close> takes
  its mask from \<open>mask_image\<close>, \<open>self_masked_op\<close> from the image it draws on.
  \<open>dotted_world\<close> is the store after \<open>Do\<close> on
  \<open>red_dot_op\<close>; \<open>tiny_image\<close> is a canvas of one pixel.
\<close>

definition shifted_image :: mimage where
  "shifted_image = small_image\<lparr>bounds := Rect 100 100 200 200\<rparr>"

definition corrupt_world :: "(px_canvas, px_image) world" where
  "corrupt_world =
     fresh_world\<lparr>files := (\<lambda>_. None)(''/tmp/m/0.0.png'' \<mapsto> Unreadable (Err ''png: invalid format''),
                                  ''/tmp/m/1.1.png'' \<mapsto> Unreadable (Err ''unexpected EOF''))\<rparr>"

definition clear_op :: "(px_image, unit) operation" where
  "clear_op = Clear (SetColor red (newOperation small_image))"

definition mask_image :: mimage where
  "mask_image = \<lparr>bounds = Rect 0 0 10 10, cache = 1, root = ''/tmp/k'', chunkSize = 5, routines = 1\<rparr>"

definition mask_world :: "(px_canvas, px_image) world" where
  "mask_world =
     fresh_world\<lparr>caches := (caches fresh_world)(1 := newCache ''/tmp/k'' 5),
                 files := (\<lambda>_. None)(''/tmp/k/0.0.png'' \<mapsto> Unreadable (Err ''unexpected EOF''))\<rparr>"

definition masked_op :: "(px_image, unit) operation" where
  "masked_op = SetPixel 3 3 (SetMask mask_image (SetLineWidth 1 (SetColor red (newOperation small_image))))"

definition self_masked_op :: "(px_image, unit) operation" where
  "self_masked_op = SetPixel 3 3 (SetMask small_image (SetLineWidth 1 (SetColor red (newOperation small_image))))"

definition dotted_world :: "(px_canvas, px_image) world" where
  "dotted_world =
     (case Do pixel_gg red_dot_op fresh_world of None \<Rightarrow> fresh_world | Some (e, o2, w) \<Rightarrow> w)"

definition tiny_image :: mimage where
  "tiny_image = small_image\<lparr>bounds := Rect 0 0 1 1\<rparr>"

section \<open>Coordinate mapping: theorems\<close>

lemma quo_nonneg: "0 \<le> a \<Longrightarrow> 0 < b \<Longrightarrow> quo a b = a div b"
  by (cases "a = 0") (simp_all add: quo_def)

lemma quo_neg: "a < 0 \<Longrightarrow> 0 < b \<Longrightarrow> quo a b = - ((- a) div b)"
  by (simp add: quo_def)

lemma quo_mono:
  assumes "0 < c" "a \<le> b"
  shows "quo a c \<le> quo b c"
proof (cases "0 \<le> a")
  case True
  with assms show ?thesis by (simp add: quo_nonneg zdiv_mono1)
next
  case False
  note an = this
  show ?thesis
  proof (cases "0 \<le> b")
    case True
    have "quo a c \<le> 0" using an assms(1) by (simp add: quo_neg pos_imp_zdiv_nonneg_iff)
    moreover have "0 \<le> quo b c" using True assms(1) by (simp add: quo_nonneg pos_imp_zdiv_nonneg_iff)
    ultimately show ?thesis by simp
  next
    case False
    have "(- b) div c \<le> (- a) div c" using assms by (intro zdiv_mono1) simp_all
    with an False assms(1) show ?thesis by (simp add: quo_neg)
  qed
qed

text \<open>
  C3 (code evaluated at the failing input).  On a canvas 10 wide and 5 high the pixel
  (7, 2) lies inside the canvas rectangle, its chunk indices are the truncated quotients
  (1, 0), but \<open>toChunk\<close> reports it out of bounds: the x coordinate is compared with
  \<open>bounds.Max.Y\<close> instead of \<open>bounds.Max.X\<close>.
\<close>

theorem toChunk_wide_image_out_of_bounds:
  "toChunk wide_image 7 2 = Some (1, 0, False) \<and>
   Min_X (bounds wide_image) \<le> 7 \<and> 7 < Max_X (bounds wide_image) \<and>
   Min_Y (bounds wide_image) \<le> 2 \<and> 2 < Max_Y (bounds wide_image)"
  by (simp add: toChunk_def wide_image_def Rect_def quo_def)

lemma sub64_one: "a \<noteq> - 9223372036854775808 \<Longrightarrow> sub64 a 1 = a - 1"
  by (auto simp: sub64_def in64_def wrap64_def mod_pos_pos_trivial)

lemma length_product_one:
  "length (List.product [fx..lx] [fy..ly]) = 1 \<longleftrightarrow> fx = lx \<and> fy = (ly::int)"
  by (auto simp: length_product) 

lemma Sub_canvas64:
  "canvas64 m \<Longrightarrow> Sub (bounds m) (Pt 1 1) =
     Rectangle (Min_X (bounds m) - 1) (Min_Y (bounds m) - 1) (Max_X (bounds m) - 1) (Max_Y (bounds m) - 1)"
  by (simp add: Sub_def canvas64_def sub64_one)

text \<open>
  C2 (as amended).  Take a canvas with a positive chunk size whose coordinates are 64-bit
  values above the least.  When the rectangle R does not meet the canvas bounds, enlarged
  by the row and the column before the Min corner, \<open>chunksWithin\<close> sends nothing.
  When R starts inside the canvas, before its last row and column, and is not empty, the
  keys sent are, without duplicates and without gaps, the rectangular span from the chunk
  of R's Min corner to the chunk of the point H, the smaller of R's Max corner and the
  last pixel of the canvas in each coordinate; there is exactly one key exactly when R's
  Min corner and H fall in the same chunk; and the chunk of every pixel of R inside the
  canvas is among the keys.  (Nothing is said of a rectangle that starts in the last row
  or column of the canvas, or that touches the row or column before its Min corner.)
\<close>

theorem chunksWithin_span:
  fixes m :: mimage and r0 :: rectangle
  assumes cs: "0 < chunkSize m" and c64: "canvas64 m"
  defines "hx \<equiv> min (Max_X r0) (Max_X (bounds m) - 1)"
    and "hy \<equiv> min (Max_Y r0) (Max_Y (bounds m) - 1)"
  defines "fx \<equiv> quo (Min_X r0) (chunkSize m)" and "fy \<equiv> quo (Min_Y r0) (chunkSize m)"
    and "lx \<equiv> quo hx (chunkSize m)" and "ly \<equiv> quo hy (chunkSize m)"
  shows "(Empty (Intersect r0 (Rectangle (Min_X (bounds m) - 1) (Min_Y (bounds m) - 1)
                                        (Max_X (bounds m)) (Max_Y (bounds m)))) \<longrightarrow>
        chunksWithin m r0 = Some []) \<and>
     (Min_X (bounds m) \<le> Min_X r0 \<and> Min_Y (bounds m) \<le> Min_Y r0 \<and>
      Min_X r0 < hx \<and> Min_Y r0 < hy \<longrightarrow>
        (\<exists>ks. chunksWithin m r0 = Some ks \<and> distinct ks \<and>
           set ks = {fx..lx} \<times> {fy..ly} \<and>
           (length ks = 1 \<longleftrightarrow> fx = lx \<and> fy = ly) \<and>
           (\<forall>x y. Min_X r0 \<le> x \<and> x < Max_X r0 \<and> x < Max_X (bounds m) \<and>
                  Min_Y r0 \<le> y \<and> y < Max_Y r0 \<and> y < Max_Y (bounds m) \<longrightarrow>
                  (quo x (chunkSize m), quo y (chunkSize m)) \<in> set ks)))"
proof (intro conjI impI)
  assume "Empty (Intersect r0 (Rectangle (Min_X (bounds m) - 1) (Min_Y (bounds m) - 1)
                                        (Max_X (bounds m)) (Max_Y (bounds m))))"
  then have "Empty (Intersect r0 (Sub (bounds m) (Pt 1 1)))"
    unfolding Sub_canvas64[OF c64]
    by (auto simp: Intersect_def Empty_def Let_def ZR_def split: if_splits)
  then show "chunksWithin m r0 = Some []"
    by (simp add: chunksWithin_def)
next
  assume a: "Min_X (bounds m) \<le> Min_X r0 \<and> Min_Y (bounds m) \<le> Min_Y r0 \<and>
      Min_X r0 < hx \<and> Min_Y r0 < hy"
  have i: "Intersect r0 (Sub (bounds m) (Pt 1 1)) = Rectangle (Min_X r0) (Min_Y r0) hx hy"
    using a unfolding Sub_canvas64[OF c64] hx_def hy_def
    by (auto simp: Intersect_def Empty_def Let_def min_def)
  have ks: "chunksWithin m r0 = Some (List.product [fx..lx] [fy..ly])"
    using a cs by (simp add: chunksWithin_def i toChunk_def Empty_def fx_def fy_def lx_def ly_def Let_def)
  have cover: "(quo x (chunkSize m), quo y (chunkSize m)) \<in> {fx..lx} \<times> {fy..ly}"
    if "Min_X r0 \<le> x" "x < Max_X r0" "x < Max_X (bounds m)"
       "Min_Y r0 \<le> y" "y < Max_Y r0" "y < Max_Y (bounds m)" for x y
  proof -
    have "x \<le> hx" "y \<le> hy" using that by (simp_all add: hx_def hy_def)
    then show ?thesis using that cs by (simp add: fx_def fy_def lx_def ly_def quo_mono)
  qed
  have "fx \<le> lx" "fy \<le> ly"
    using a cs by (simp_all add: fx_def fy_def lx_def ly_def quo_mono)
  then have one: "length (List.product [fx..lx] [fy..ly]) = 1 \<longleftrightarrow> fx = lx \<and> fy = ly"
    by (rule_tac length_product_one)
  show "\<exists>ks. chunksWithin m r0 = Some ks \<and> distinct ks \<and>
           set ks = {fx..lx} \<times> {fy..ly} \<and>
           (length ks = 1 \<longleftrightarrow> fx = lx \<and> fy = ly) \<and>
           (\<forall>x y. Min_X r0 \<le> x \<and> x < Max_X r0 \<and> x < Max_X (bounds m) \<and>
                  Min_Y r0 \<le> y \<and> y < Max_Y r0 \<and> y < Max_Y (bounds m) \<longrightarrow>
                  (quo x (chunkSize m), quo y (chunkSize m)) \<in> set ks)"
    using ks cover one by (auto simp: distinct_product)
qed

theorem chunksWithin_span_witness:
  "0 < chunkSize example_image \<and> canvas64 example_image \<and>
   chunksWithin example_image (Rect 1000 1000 1100 1100) = Some [] \<and>
   (\<exists>ks. chunksWithin example_image (Rect 200 200 600 600) = Some ks \<and> distinct ks \<and>
      set ks = {0..1} \<times> {0..1} \<and> length ks \<noteq> 1)"
  using chunksWithin_span [of example_image "Rect 1000 1000 1100 1100"]
    chunksWithin_span [of example_image "Rect 200 200 600 600"]
  by (simp add: canvas64_def example_image_def Rect_def Intersect_def Empty_def quo_def ZR_def) blast


text \<open>
  C2 as stated fails: the half-open rectangle (0,0)-(500,500) of the README's canvas lies
  in chunk (0, 0) alone (its first pixel (0,0) and its last pixel (499,499) do), yet four
  keys are sent, because the Max corner (500,500) is mapped to a chunk as if it were a
  pixel of the rectangle.
\<close>

theorem chunksWithin_inside_one_chunk_counterexample:
  "toChunk example_image 0 0 = Some (0, 0, True) \<and>
   toChunk example_image 499 499 = Some (0, 0, True) \<and>
   chunksWithin example_image (Rect 0 0 500 500) = Some [(0, 0), (0, 1), (1, 0), (1, 1)]"
  by (simp add: chunksWithin_def toChunk_def example_image_def Rect_def Intersect_def Sub_def
      sub64_def in64_def wrap64_def Empty_def quo_def upto.simps ZR_def)

section \<open>The store: helper lemmas\<close>

lemma upd_ctx_fields [simp]:
  "ctxs (upd_ctx a f w) = (ctxs w)(a := f (ctxs w a))"
  "nctx (upd_ctx a f w) = nctx w"
  "caches (upd_ctx a f w) = caches w"
  "files (upd_ctx a f w) = files w"
  "unwritable (upd_ctx a f w) = unwritable w"
  "writes (upd_ctx a f w) = writes w"
  "logs (upd_ctx a f w) = logs w"
  by (simp_all add: upd_ctx_def)

lemma checkErrors_loop_Some:
  "checkErrors_loop (Some f) errs = Some (foldl Errorf_w_v f (non_nil errs))"
  by (induction errs arbitrary: f) (auto split: option.splits)

lemma checkErrors_loop_None:
  "checkErrors_loop None errs =
     (case non_nil errs of [] \<Rightarrow> None | e # es \<Rightarrow> Some (foldl Errorf_w_v e es))"
  by (induction errs) (auto simp: checkErrors_loop_Some split: option.splits)

lemma checkErrors_fold:
  "checkErrors errs =
     (case non_nil errs of [] \<Rightarrow> None | e # es \<Rightarrow> Some (foldl Errorf_w_v e es))"
  by (simp add: checkErrors_def checkErrors_loop_None)

lemma non_nil_map_Some [simp]: "non_nil (map Some es) = es"
  by (induction es) simp_all

lemma maxlineWidth_enqueue [simp]: "maxlineWidth (enqueue act o1) = maxlineWidth o1"
  by (simp add: enqueue_def)
lemma maxlineWidth_minMax [simp]: "maxlineWidth (minMax x y o1) = maxlineWidth o1"
  by (simp add: minMax_def)

lemma maxlineWidth_invoke:
  "maxlineWidth (invoke G c o1) =
     (case c of setLineWidth w \<Rightarrow> max (maxlineWidth o1) (min 1 w) | _ \<Rightarrow> maxlineWidth o1)"
  by (cases c) (simp_all add: SetFillStyle_def SetStrokeStyle_def SetLineWidth_def SetColor_def
      SetPixel_def SetMask_def InvertMask_def MoveTo_def LineTo_def ClosePath_def DrawRectangle_def
      RotateAbout_def DrawEllipse_def Fill_def Stroke_def Clear_def DrawImage_def Let_def)

lemma Max_insert_max:
  "finite S \<Longrightarrow> Max (insert (max a b) S) = Max (insert (a::real) (insert b S))"
  by (cases "S = {}") (simp_all add: max.assoc)

lemma calls_Nil: "calls G [] o1 = o1"
  by (simp add: calls_def)

lemma calls_Cons: "calls G (c # cs) o1 = calls G cs (invoke G c o1)"
  by (simp add: calls_def)

lemma maxlineWidth_calls_gen:
  "maxlineWidth (calls G cs o1) = Max (insert (maxlineWidth o1) (min 1 ` set (widths cs)))"
proof (induction cs arbitrary: o1)
  case Nil
  show ?case by (simp add: calls_def)
next
  case (Cons c cs)
  have "maxlineWidth (calls G (c # cs) o1) =
          Max (insert (maxlineWidth (invoke G c o1)) (min 1 ` set (widths cs)))"
    by (simp only: calls_Cons Cons.IH)
  also have "\<dots> = Max (insert (maxlineWidth o1) (min 1 ` set (widths (c # cs))))"
    unfolding maxlineWidth_invoke by (cases c) (simp_all add: Max_insert_max)
  finally show ?case .
qed

lemma reg_grows_refl [simp]: "reg_grows w w"
  by (simp add: reg_grows_def)

lemma reg_grows_trans:
  assumes "reg_grows w1 w2" "reg_grows w2 w3"
  shows "reg_grows w1 w3"
proof -
  have "nctx w1 \<le> nctx w3" using assms by (simp add: reg_grows_def)
  moreover have "cache_root (caches w3 cp) = cache_root (caches w1 cp) \<and>
        cache_chunkSize (caches w3 cp) = cache_chunkSize (caches w1 cp)" for cp
    using assms by (simp add: reg_grows_def)
  moreover have "map_of (chunks (caches w3 cp)) k = Some a"
    if "map_of (chunks (caches w1 cp)) k = Some a" for cp k a
    using that assms by (simp add: reg_grows_def)
  moreover have "distinct (map fst (chunks (caches w3 cp)))"
    if "distinct (map fst (chunks (caches w1 cp)))" for cp
    using that assms by (simp add: reg_grows_def)
  moreover have "wf_world w3" if "wf_world w1"
    using that assms by (simp add: reg_grows_def)
  ultimately show ?thesis by (simp add: reg_grows_def)
qed

lemma reg_grows_same:
  "caches w' = caches w \<Longrightarrow> nctx w' = nctx w \<Longrightarrow> reg_grows w w'"
  by (simp add: reg_grows_def wf_world_def)

lemma balanced_refl [simp]: "balanced w w"
  by (simp add: balanced_def)

lemma balanced_trans:
  assumes "balanced w1 w2" "balanced w2 w3"
  shows "balanced w1 w3"
proof -
  have n: "nctx w1 \<le> nctx w2" "nctx w2 \<le> nctx w3"
    using assms by (simp_all add: balanced_def reg_grows_def)
  have r: "reg_grows w1 w3" using assms reg_grows_trans by (auto simp: balanced_def)
  have a: "readers (ctxs w3 b) = readers (ctxs w1 b)" if "b < nctx w1" for b
    using that assms n by (simp add: balanced_def)
  have b: "readers (ctxs w3 b) = 0" if "nctx w1 \<le> b" "b < nctx w3" for b
  proof (cases "b < nctx w2")
    case True
    then show ?thesis using that assms by (simp add: balanced_def)
  next
    case False
    then show ?thesis using that assms by (simp add: balanced_def)
  qed
  show ?thesis using r a b by (simp add: balanced_def)
qed

lemma ctx_read_ok_refl [simp]: "ctx_read_ok G fs c c"
  by (simp add: ctx_read_ok_def)

lemma disk_canvas_Img_update [simp]: "disk_canvas G fs (c\<lparr>Img := x\<rparr>) = disk_canvas G fs c"
  by (simp add: disk_canvas_def split: option.splits disk_file.splits)

lemma ctx_read_ok_trans:
  "ctx_read_ok G fs c1 c2 \<Longrightarrow> ctx_read_ok G fs c2 c3 \<Longrightarrow> ctx_read_ok G fs c1 c3"
  by (auto simp: ctx_read_ok_def)

lemma read_frame_refl [simp]: "read_frame G w w"
  by (auto simp: read_frame_def)

lemma read_frame_trans:
  assumes "read_frame G w1 w2" "read_frame G w2 w3"
  shows "read_frame G w1 w3"
proof -
  have n: "nctx w1 \<le> nctx w2" "nctx w2 \<le> nctx w3"
    using assms by (simp_all add: read_frame_def balanced_def reg_grows_def)
  have f: "files w2 = files w1" using assms by (simp add: read_frame_def)
  have bal: "balanced w1 w3" using assms balanced_trans by (auto simp: read_frame_def)
  have a: "ctx_read_ok G (files w1) (ctxs w1 b) (ctxs w3 b)" if "b < nctx w1" for b
  proof -
    have "ctx_read_ok G (files w1) (ctxs w1 b) (ctxs w2 b)"
      using that assms(1) by (simp add: read_frame_def)
    moreover have "ctx_read_ok G (files w1) (ctxs w2 b) (ctxs w3 b)"
      using that assms(2) n f by (simp add: read_frame_def)
    ultimately show ?thesis by (rule ctx_read_ok_trans)
  qed
  have b: "\<exists>k x y cs. ctx_read_ok G (files w1) (newContext k x y cs) (ctxs w3 b)"
    if "nctx w1 \<le> b" "b < nctx w3" for b
  proof (cases "b < nctx w2")
    case True
    then have "\<exists>k x y cs. ctx_read_ok G (files w1) (newContext k x y cs) (ctxs w2 b)"
      using that assms(1) unfolding read_frame_def by blast
    then obtain k x y cs where "ctx_read_ok G (files w1) (newContext k x y cs) (ctxs w2 b)"
      by blast
    moreover have "ctx_read_ok G (files w1) (ctxs w2 b) (ctxs w3 b)"
      using True assms(2) f by (simp add: read_frame_def)
    ultimately show ?thesis using ctx_read_ok_trans by blast
  next
    case False
    then show ?thesis using that assms(2) f by (simp add: read_frame_def)
  qed
  show ?thesis using bal a b assms by (simp add: read_frame_def)
qed

lemma read_frame_balanced: "read_frame G w w' \<Longrightarrow> balanced w w'"
  by (simp add: read_frame_def)

lemma balanced_reg_grows: "balanced w w' \<Longrightarrow> reg_grows w w'"
  by (simp add: balanced_def)

lemma upd_ctx_triv: "f (ctxs w a) = ctxs w a \<Longrightarrow> upd_ctx a f w = w"
  by (simp add: upd_ctx_def)

lemma upd_ctx_upd_ctx [simp]: "upd_ctx a f (upd_ctx a g w) = upd_ctx a (f \<circ> g) w"
  by (simp add: upd_ctx_def)

lemma maybeLoadImage_char:
  assumes "maybeLoadImage G a w = (e, w')"
  shows "\<exists>c'. ctx_read_ok G (files w) (ctxs w a) c' \<and> w' = upd_ctx a (\<lambda>_. c') w \<and>
              (e = None \<longrightarrow> Img c' \<noteq> None)"
proof (cases "Img (ctxs w a)")
  case (Some i)
  then have "e = None" "w' = w" using assms by (simp_all add: maybeLoadImage_def Let_def)
  then show ?thesis using Some
    by (intro exI[of _ "ctxs w a"]) (simp add: upd_ctx_triv)
next
  case None
  show ?thesis
  proof (cases "files w (key (ctxs w a))")
    case N: None
    then show ?thesis using None assms
      by (intro exI[of _ "(ctxs w a)\<lparr>Img := disk_canvas G (files w) (ctxs w a)\<rparr>"])
         (auto simp: maybeLoadImage_def ctx_read_ok_def disk_canvas_def upd_ctx_def Let_def)
  next
    case (Some f)
    show ?thesis
    proof (cases f)
      case (PNG p)
      then show ?thesis using None Some assms
        by (intro exI[of _ "(ctxs w a)\<lparr>Img := disk_canvas G (files w) (ctxs w a)\<rparr>"])
           (auto simp: maybeLoadImage_def ctx_read_ok_def disk_canvas_def upd_ctx_def Let_def)
    next
      case (Unreadable x)
      then have "w' = w" "e = Some x" using None Some assms by (simp_all add: maybeLoadImage_def Let_def)
      then show ?thesis
        by (intro exI[of _ "ctxs w a"]) (simp add: upd_ctx_triv)
    qed
  qed
qed

lemma ctx_read_ok_readers:
  "ctx_read_ok G fs c c' \<Longrightarrow> ctx_read_ok G fs (c\<lparr>readers := n\<rparr>) (c'\<lparr>readers := n\<rparr>)"
  by (auto simp: ctx_read_ok_def disk_canvas_def split: option.splits disk_file.splits)

lemma ctx_read_ok_fields:
  assumes "ctx_read_ok G fs c c'"
  shows "readers c' = readers c" "edited c' = edited c" "key c' = key c"
    "ctx_chunkSize c' = ctx_chunkSize c" "Img c \<noteq> None \<Longrightarrow> c' = c"
  using assms by (auto simp: ctx_read_ok_def)

lemma with_ctx_char:
  assumes "with_ctx G a w = (e, w')"
  shows "\<exists>c'. ctx_read_ok G (files w) (ctxs w a) c' \<and>
              w' = upd_ctx a (\<lambda>_. c'\<lparr>readers := readers c' + 1\<rparr>) w \<and>
              (e = None \<longrightarrow> Img c' \<noteq> None)"
proof -
  let ?w1 = "upd_ctx a (\<lambda>c. c\<lparr>readers := readers c + 1\<rparr>) w"
  from assms have "maybeLoadImage G a ?w1 = (e, w')" by (simp add: with_ctx_def)
  from maybeLoadImage_char[OF this] obtain c1 where
    c1: "ctx_read_ok G (files w) ((ctxs w a)\<lparr>readers := readers (ctxs w a) + 1\<rparr>) c1"
      "w' = upd_ctx a (\<lambda>_. c1) ?w1" "e = None \<longrightarrow> Img c1 \<noteq> None"
    by auto
  let ?c' = "c1\<lparr>readers := readers (ctxs w a)\<rparr>"
  have "ctx_read_ok G (files w) (ctxs w a) ?c'"
    using ctx_read_ok_readers[OF c1(1), of "readers (ctxs w a)"] by simp
  moreover have "c1 = ?c'\<lparr>readers := readers ?c' + 1\<rparr>"
    using ctx_read_ok_fields(1)[OF c1(1)] by simp
  then have "w' = upd_ctx a (\<lambda>_. ?c'\<lparr>readers := readers ?c' + 1\<rparr>) w"
    using c1(2) by (simp add: comp_def)
  moreover have "e = None \<longrightarrow> Img ?c' \<noteq> None" using c1(3) by simp
  ultimately show ?thesis by blast
qed

lemma Load_hit:
  "map_of (chunks (caches w cp)) (chunk_key (cache_root (caches w cp)) x y) = Some a \<Longrightarrow>
   Load G cp x y w = (a, with_ctx G a w)"
  by (simp add: Load_def Let_def)

lemma Load_miss:
  "map_of (chunks (caches w cp)) (chunk_key (cache_root (caches w cp)) x y) = None \<Longrightarrow>
   Load G cp x y w =
     (nctx w, with_ctx G (nctx w) (alloc_ctx cp (chunk_key (cache_root (caches w cp)) x y) x y w))"
  by (simp add: Load_def Let_def alloc_ctx_def)

lemma alloc_ctx_fields [simp]:
  "nctx (alloc_ctx cp k x y w) = nctx w + 1"
  "files (alloc_ctx cp k x y w) = files w"
  "unwritable (alloc_ctx cp k x y w) = unwritable w"
  "writes (alloc_ctx cp k x y w) = writes w"
  "logs (alloc_ctx cp k x y w) = logs w"
  "ctxs (alloc_ctx cp k x y w) = (ctxs w)(nctx w := newContext k x y (cache_chunkSize (caches w cp)))"
  "caches (alloc_ctx cp k x y w) = (caches w)(cp := (caches w cp)\<lparr>chunks := chunks (caches w cp) @ [(k, nctx w)]\<rparr>)"
  by (simp_all add: alloc_ctx_def)

lemma reg_grows_alloc:
  assumes "map_of (chunks (caches w cp)) k = None"
  shows "reg_grows w (alloc_ctx cp k x y w)"
proof -
  have d: "distinct (map fst (chunks (caches w cp) @ [(k, nctx w)]))"
    if "distinct (map fst (chunks (caches w cp)))"
    using that assms by (simp add: map_of_eq_None_iff)
  have m: "map_of (chunks (caches w cp) @ [(k, nctx w)]) k' = Some a"
    if "map_of (chunks (caches w cp)) k' = Some a" for k' a
    using that by (simp add: map_add_Some_iff)
  have wf: "wf_world (alloc_ctx cp k x y w)" if "wf_world w"
    unfolding wf_world_def
  proof (intro allI impI)
    fix cq k' a assume h: "map_of (chunks (caches (alloc_ctx cp k x y w) cq)) k' = Some a"
    show "a < nctx (alloc_ctx cp k x y w)"
    proof (cases "cq = cp")
      case True
      then have "map_of (chunks (caches w cp)) k' = Some a \<or> a = nctx w"
        using h by (auto simp: map_add_Some_iff split: if_splits)
      then show ?thesis using that by (auto simp: wf_world_def less_Suc_eq dest: spec)
    next
      case False
      then have "map_of (chunks (caches w cq)) k' = Some a" using h by simp
      then have "a < nctx w" using that by (auto simp: wf_world_def)
      then show ?thesis by simp
    qed
  qed
  show ?thesis using d m wf by (simp add: reg_grows_def)
qed

lemma reg_grows_upd_ctx [simp]: "reg_grows w (upd_ctx a f w)"
  by (simp add: reg_grows_same)

lemma reg_grows_upd_ctx_trans: "reg_grows w w1 \<Longrightarrow> reg_grows w (upd_ctx a f w1)"
  by (erule reg_grows_trans) simp

lemma Done_release: "0 < readers (ctxs w a) \<Longrightarrow> Done a w = Some (release a w)"
  by (simp add: Done_def release_def)

lemma Load_char:
  assumes "Load G cp x y w = (a, e, w1)"
  defines "k \<equiv> chunk_key (cache_root (caches w cp)) x y"
  obtains (hit) c' where "map_of (chunks (caches w cp)) k = Some a"
      "ctx_read_ok G (files w) (ctxs w a) c'"
      "w1 = upd_ctx a (\<lambda>_. c'\<lparr>readers := readers c' + 1\<rparr>) w"
      "e = None \<longrightarrow> Img c' \<noteq> None"
  | (miss) c' where "map_of (chunks (caches w cp)) k = None" "a = nctx w"
      "ctx_read_ok G (files w) (newContext k x y (cache_chunkSize (caches w cp))) c'"
      "w1 = upd_ctx a (\<lambda>_. c'\<lparr>readers := readers c' + 1\<rparr>) (alloc_ctx cp k x y w)"
      "e = None \<longrightarrow> Img c' \<noteq> None"
proof (cases "map_of (chunks (caches w cp)) k")
  case None
  then have "a = nctx w" "with_ctx G (nctx w) (alloc_ctx cp k x y w) = (e, w1)"
    using assms(1) Load_miss[of w cp x y G] by (auto simp: k_def)
  from with_ctx_char[OF this(2)] this(1) None miss show ?thesis by auto
next
  case (Some a')
  then have "a' = a" "with_ctx G a w = (e, w1)"
    using assms(1) Load_hit[of w cp x y a' G] by (auto simp: k_def)
  from with_ctx_char[OF this(2)] this(1) Some hit show ?thesis by auto
qed

lemma read_frame_hit:
  assumes "ctx_read_ok G (files w) (ctxs w a) c'"
  shows "read_frame G w (upd_ctx a (\<lambda>_. c') w)"
  using assms ctx_read_ok_fields(1)[OF assms]
  by (auto simp: read_frame_def balanced_def)

lemma read_frame_miss:
  assumes "ctx_read_ok G (files w) (newContext k x y (cache_chunkSize (caches w cp))) c'"
    and "map_of (chunks (caches w cp)) k = None"
  shows "read_frame G w (upd_ctx (nctx w) (\<lambda>_. c') (alloc_ctx cp k x y w))"
proof -
  have r: "readers c' = 0" using ctx_read_ok_fields(1)[OF assms(1)] by (simp add: newContext_def)
  have g: "reg_grows w (upd_ctx (nctx w) (\<lambda>_. c') (alloc_ctx cp k x y w))"
    using reg_grows_alloc[OF assms(2)] by (rule reg_grows_upd_ctx_trans)
  show ?thesis using assms(1) r g
    by (auto simp: read_frame_def balanced_def less_Suc_eq)
qed

lemma Load_Done:
  assumes "Load G cp x y w = (a, e, w1)"
  shows "Done a w1 = Some (release a w1)" "read_frame G w (release a w1)"
    "e = None \<Longrightarrow> Img (ctxs w1 a) \<noteq> None" "0 < readers (ctxs w1 a)"
    "Img (ctxs (release a w1) a) = Img (ctxs w1 a)"
  using assms
  by (cases rule: Load_char;
      simp add: Done_def release_def comp_def read_frame_hit read_frame_miss)+

lemma Mask_loop_read_frame:
  "\<exists>res w'. Mask_loop G m r ks dst w = Some (res, w') \<and> read_frame G w w'"
proof (induction ks arbitrary: dst w)
  case Nil
  show ?case by simp
next
  case (Cons coord ks)
  obtain a e w1 where L: "Load G (cache m) (fst coord) (snd coord) w = (a, e, w1)"
    by (metis prod_cases3)
  note D = Load_Done[OF L]
  show ?case
  proof (cases e)
    case (Some err)
    then show ?thesis using L D by auto
  next
    case None
    then obtain i where i: "Img (ctxs w1 a) = Some i" using D(3) by auto
    let ?dst = "draw_Src_alpha G dst
                  (Sub (Add (alpha_Bounds G (gg_AsMask G i))
                            (Pt (fst coord * chunkSize m) (snd coord * chunkSize m)))
                       (Pt (Min_X r) (Min_Y r)))
                  (gg_AsMask G i)"
    from Cons.IH[of ?dst "release a w1"] obtain res w' where
      "Mask_loop G m r ks ?dst (release a w1) = Some (res, w')" "read_frame G (release a w1) w'"
      by blast
    then show ?thesis using L D None i read_frame_trans[OF D(2)]
      by (auto simp: Let_def)
  qed
qed

lemma Image_loop_read_frame:
  "\<exists>res w'. Image_loop G m r ks dst w = Some (res, w') \<and> read_frame G w w'"
proof (induction ks arbitrary: dst w)
  case Nil
  show ?case by simp
next
  case (Cons coord ks)
  obtain a e w1 where L: "Load G (cache m) (fst coord) (snd coord) w = (a, e, w1)"
    by (metis prod_cases3)
  note D = Load_Done[OF L]
  show ?case
  proof (cases e)
    case (Some err)
    then show ?thesis using L D by auto
  next
    case None
    then obtain i where i: "Img (ctxs w1 a) = Some i" using D(3) by auto
    let ?dst = "draw_Src G dst
                  (Sub (Add (img_Bounds G (gg_Image G i))
                            (Pt (fst coord * chunkSize m) (snd coord * chunkSize m)))
                       (Pt (Min_X r) (Min_Y r)))
                  (gg_Image G i)"
    from Cons.IH[of ?dst "release a w1"] obtain res w' where
      "Image_loop G m r ks ?dst (release a w1) = Some (res, w')" "read_frame G (release a w1) w'"
      by blast
    then show ?thesis using L D None i read_frame_trans[OF D(2)]
      by (auto simp: Let_def)
  qed
qed

lemma chunksWithin_total: "chunkSize m \<noteq> 0 \<Longrightarrow> \<exists>ks. chunksWithin m r = Some ks"
  by (simp add: chunksWithin_def toChunk_def Let_def)

lemma Mask_read_frame:
  "chunkSize m \<noteq> 0 \<Longrightarrow> \<exists>res w'. Mask G m r w = Some (res, w') \<and> read_frame G w w'"
  using chunksWithin_total[of m r] Mask_loop_read_frame[of G m r]
  by (auto simp: Mask_def)

lemma Image_read_frame:
  "chunkSize m \<noteq> 0 \<Longrightarrow> \<exists>res w'. Image G m r w = Some (res, w') \<and> read_frame G w w'"
  using chunksWithin_total[of m r] Image_loop_read_frame[of G m r]
  by (auto simp: Image_def)

lemma AtOk_read_frame:
  assumes "chunkSize m \<noteq> 0"
  shows "\<exists>res w'. AtOk G m x y w = Some (res, w') \<and> read_frame G w w'"
proof -
  obtain cx cy valid where t: "toChunk m x y = Some (cx, cy, valid)"
    using assms by (simp add: toChunk_def)
  show ?thesis
  proof (cases valid)
    case False
    then show ?thesis using t by (simp add: AtOk_def)
  next
    case True
    obtain a e w1 where L: "Load G (cache m) cx cy w = (a, e, w1)"
      by (metis prod_cases3)
    note D = Load_Done[OF L]
    show ?thesis
    proof (cases e)
      case (Some err)
      then show ?thesis using t True L D by (simp add: AtOk_def)
    next
      case None
      then obtain i where i: "Img (ctxs w1 a) = Some i" using D(3) by auto
      then show ?thesis using t True L D None by (simp add: AtOk_def)
    qed
  qed
qed

lemma release_fields [simp]:
  "nctx (release a w) = nctx w" "caches (release a w) = caches w" "files (release a w) = files w"
  "unwritable (release a w) = unwritable w" "writes (release a w) = writes w"
  "logs (release a w) = logs w"
  "ctxs (release a w) = (ctxs w)(a := (ctxs w a)\<lparr>readers := readers (ctxs w a) - 1\<rparr>)"
  by (simp_all add: release_def)

lemma wf_world_cong: "caches w' = caches w \<Longrightarrow> nctx w' = nctx w \<Longrightarrow> wf_world w' = wf_world w"
  by (simp add: wf_world_def)

lemma reg_grows_cong:
  "caches w' = caches w1 \<Longrightarrow> nctx w' = nctx w1 \<Longrightarrow> reg_grows w w' = reg_grows w w1"
  by (simp add: reg_grows_def wf_world_def)

lemma balanced_upd_ctx:
  "readers (f (ctxs w a)) = readers (ctxs w a) \<Longrightarrow> balanced w (upd_ctx a f w)"
  by (simp add: balanced_def)

lemma balanced_release_shift:
  assumes "balanced w (release a w1)" "balanced w1 w2" "a < nctx w1"
  shows "balanced w (release a w2)"
proof -
  have g: "reg_grows w w1" using assms(1) reg_grows_cong[of "release a w1" w1 w]
    by (simp add: balanced_def)
  then have "reg_grows w w2" using assms(2) reg_grows_trans by (auto simp: balanced_def)
  then have g2: "reg_grows w (release a w2)"
    using reg_grows_cong[of "release a w2" w2 w] by simp
  have n: "nctx w \<le> nctx w1" "nctx w1 \<le> nctx w2"
    using g assms(2) by (simp_all add: balanced_def reg_grows_def)
  have r12: "readers (ctxs w2 b) = readers (ctxs w1 b)" if "b < nctx w1" for b
    using that assms(2) by (simp add: balanced_def)
  have old: "readers (ctxs (release a w2) b) = readers (ctxs w b)" if "b < nctx w" for b
  proof -
    have "readers (ctxs (release a w1) b) = readers (ctxs w b)"
      using that assms(1) by (simp add: balanced_def)
    then show ?thesis using that n r12[of b] assms(3) by (cases "b = a") simp_all
  qed
  have new: "readers (ctxs (release a w2) b) = 0" if "nctx w \<le> b" "b < nctx w2" for b
  proof (cases "b < nctx w1")
    case True
    then have "readers (ctxs (release a w1) b) = 0"
      using that assms(1) by (simp add: balanced_def)
    then show ?thesis using True r12[of b] by (cases "b = a") simp_all
  next
    case False
    then have "readers (ctxs w2 b) = 0" "b \<noteq> a"
      using that assms(2,3) by (auto simp: balanced_def)
    then show ?thesis by simp
  qed
  show ?thesis using g2 old new by (simp add: balanced_def)
qed

lemma on_Img_ok:
  assumes "Img (ctxs w a) \<noteq> None"
  shows "\<exists>w'. on_Img a f w = Some (None, w') \<and> balanced w w' \<and> Img (ctxs w' a) \<noteq> None"
  using assms by (auto simp: on_Img_def balanced_upd_ctx)

lemma on_Img_edited_ok:
  assumes "Img (ctxs w a) \<noteq> None"
  shows "\<exists>w'. on_Img_edited a f w = Some (None, w') \<and> balanced w w' \<and> Img (ctxs w' a) \<noteq> None"
  using assms
  by (auto simp: on_Img_edited_def on_Img_def setEdited_def comp_def balanced_upd_ctx)

lemma read_frame_keeps_Img:
  assumes "read_frame G w w'" "a < nctx w" "Img (ctxs w a) \<noteq> None"
  shows "ctxs w' a = ctxs w a"
  using assms ctx_read_ok_fields(5)[of G "files w" "ctxs w a" "ctxs w' a"]
  by (simp add: read_frame_def)

lemma apply_action_ok:
  assumes "a < nctx w" "Img (ctxs w a) \<noteq> None"
    and "\<And>other. act = setMask other \<Longrightarrow> chunkSize other \<noteq> 0"
  shows "\<exists>e w'. apply_action G a ox oy act w = Some (e, w') \<and> balanced w w' \<and>
                Img (ctxs w' a) \<noteq> None"
proof (cases act)
  case (setMask other)
  obtain i where i: "Img (ctxs w a) = Some i" using assms(2) by auto
  from setMask assms(3) have "chunkSize other \<noteq> 0" by simp
  from Mask_read_frame[OF this, of G "Add (img_Bounds G (gg_Image G i)) (Pt ox oy)" w]
  obtain mk me w1 where
    M: "Mask G other (Add (img_Bounds G (gg_Image G i)) (Pt ox oy)) w = Some ((mk, me), w1)"
      "read_frame G w w1"
    by auto
  have k: "ctxs w1 a = ctxs w a" using read_frame_keeps_Img[OF M(2) assms(1,2)] .
  have b: "balanced w w1" using M(2) by (rule read_frame_balanced)
  show ?thesis
  proof (cases me)
    case None
    from on_Img_ok[of w1 a "gg_SetMask G mk"] k assms(2) obtain w2 where
      "on_Img a (gg_SetMask G mk) w1 = Some (None, w2)" "balanced w1 w2" "Img (ctxs w2 a) \<noteq> None"
      by auto
    then show ?thesis using setMask i M None balanced_trans[OF b]
      by (auto simp: Let_def)
  next
    case (Some err)
    then show ?thesis using setMask i M k b assms(2) by (auto simp: Let_def)
  qed
qed (insert on_Img_ok[OF assms(2)] on_Img_edited_ok[OF assms(2)], simp_all, blast+)

lemma apply_loop_ok:
  assumes "a < nctx w" "Img (ctxs w a) \<noteq> None" "masks_ok q"
  shows "\<exists>e w'. apply_loop G a ox oy q w = Some (e, w') \<and> balanced w w' \<and>
                Img (ctxs w' a) \<noteq> None"
  using assms
proof (induction q arbitrary: w)
  case Nil
  then show ?case by simp
next
  case (Cons act q)
  have m: "\<And>other. act = setMask other \<Longrightarrow> chunkSize other \<noteq> 0" and mq: "masks_ok q"
    using Cons.prems(3) by (auto simp: masks_ok_def)
  from apply_action_ok[where G=G and ox=ox and oy=oy, OF Cons.prems(1,2) m] obtain e w1 where
    A: "apply_action G a ox oy act w = Some (e, w1)" "balanced w w1" "Img (ctxs w1 a) \<noteq> None"
    by blast
  show ?case
  proof (cases e)
    case (Some err)
    then show ?thesis using A by auto
  next
    case None
    have "a < nctx w1" using Cons.prems(1) A(2) by (auto simp: balanced_def reg_grows_def)
    from Cons.IH[OF this A(3) mq] obtain e2 w2 where
      "apply_loop G a ox oy q w1 = Some (e2, w2)" "balanced w1 w2" "Img (ctxs w2 a) \<noteq> None"
      by blast
    then show ?thesis using A None balanced_trans[OF A(2)] by auto
  qed
qed

lemma Load_acquire:
  assumes "Load G cp x y w = (a, e, w1)" "wf_world w"
  shows "a < nctx w1" "reg_grows w w1"
    "map_of (chunks (caches w1 cp)) (chunk_key (cache_root (caches w cp)) x y) = Some a"
  using assms
  by (cases rule: Load_char;
      auto simp: wf_world_def reg_grows_upd_ctx_trans reg_grows_alloc map_add_Some_iff)+

lemma apply_chunk_ok:
  assumes "wf_world w" "masks_ok (queue o1)"
  shows "\<exists>e w'. apply_chunk G o1 x y w = Some (e, w') \<and> balanced w w' \<and>
     map_of (chunks (caches w' (cache (parent o1))))
        (chunk_key (cache_root (caches w (cache (parent o1)))) x y) \<noteq> None"
proof -
  obtain a e w1 where L: "Load G (cache (parent o1)) x y w = (a, e, w1)"
    by (metis prod_cases3)
  note D = Load_Done[OF L] and A = Load_acquire[OF L assms(1)]
  have b1: "balanced w (release a w1)" using D(2) by (rule read_frame_balanced)
  show ?thesis
  proof (cases e)
    case (Some err)
    then show ?thesis using L D(1) b1 A(3) by (auto simp: apply_chunk_def)
  next
    case None
    from apply_loop_ok[where G=G and ox="x * chunkSize (parent o1)"
        and oy="y * chunkSize (parent o1)", OF A(1) D(3)[OF None] assms(2)]
    obtain e2 w2 where
      R: "apply_loop G a (x * chunkSize (parent o1)) (y * chunkSize (parent o1)) (queue o1) w1
            = Some (e2, w2)" "balanced w1 w2" "Img (ctxs w2 a) \<noteq> None"
      by blast
    have "readers (ctxs w2 a) = readers (ctxs w1 a)" using R(2) A(1) by (simp add: balanced_def)
    then have d: "Done a w2 = Some (release a w2)" using D(4) by (simp add: Done_release)
    have b2: "balanced w (release a w2)" using balanced_release_shift[OF b1 R(2) A(1)] .
    have "map_of (chunks (caches w2 (cache (parent o1))))
            (chunk_key (cache_root (caches w (cache (parent o1)))) x y) = Some a"
      using A(3) R(2) by (simp add: balanced_def reg_grows_def)
    then show ?thesis using L None R(1) d b2 by (auto simp: apply_chunk_def)
  qed
qed

lemma balanced_wf: "balanced w w' \<Longrightarrow> wf_world w \<Longrightarrow> wf_world w'"
  by (simp add: balanced_def reg_grows_def)

lemma balanced_root:
  "balanced w w' \<Longrightarrow> cache_root (caches w' cp) = cache_root (caches w cp)"
  by (simp add: balanced_def reg_grows_def)

lemma balanced_registered:
  "balanced w w' \<Longrightarrow> map_of (chunks (caches w cp)) k \<noteq> None \<Longrightarrow>
   map_of (chunks (caches w' cp)) k \<noteq> None"
  by (auto simp: balanced_def reg_grows_def)

lemma Do_worker_ok:
  assumes "wf_world w" "masks_ok (queue o1)"
  shows "\<exists>errs w'. Do_worker G o1 ks w = Some (errs, w') \<and> balanced w w' \<and>
     errs = non_nil (applications G o1 ks w) \<and>
     length (applications G o1 ks w) = length ks \<and>
     (\<forall>c\<in>set ks. map_of (chunks (caches w' (cache (parent o1))))
          (chunk_key (cache_root (caches w (cache (parent o1)))) (fst c) (snd c)) \<noteq> None)"
  using assms(1)
proof (induction ks arbitrary: w)
  case Nil
  show ?case by simp
next
  case (Cons c ks)
  from apply_chunk_ok[OF Cons.prems assms(2), of G "fst c" "snd c"] obtain e w1 where
    A: "apply_chunk G o1 (fst c) (snd c) w = Some (e, w1)" "balanced w w1"
      "map_of (chunks (caches w1 (cache (parent o1))))
         (chunk_key (cache_root (caches w (cache (parent o1)))) (fst c) (snd c)) \<noteq> None"
    by blast
  from Cons.IH[OF balanced_wf[OF A(2) Cons.prems]] obtain errs w2 where
    B: "Do_worker G o1 ks w1 = Some (errs, w2)" "balanced w1 w2"
      "errs = non_nil (applications G o1 ks w1)"
      "length (applications G o1 ks w1) = length ks"
      "\<forall>c\<in>set ks. map_of (chunks (caches w2 (cache (parent o1))))
          (chunk_key (cache_root (caches w1 (cache (parent o1)))) (fst c) (snd c)) \<noteq> None"
    by blast
  have reg: "\<forall>c'\<in>set (c # ks). map_of (chunks (caches w2 (cache (parent o1))))
          (chunk_key (cache_root (caches w (cache (parent o1)))) (fst c') (snd c')) \<noteq> None"
    using A(3) B(5) balanced_registered[OF B(2)] balanced_root[OF A(2)] by auto
  show ?case
    using A(1) B(1,3,4) balanced_trans[OF A(2) B(2)] reg
    by (cases e) auto
qed

lemma Do_ok:
  assumes "wf_world w" "masks_ok (queue o1)" "chunkSize (parent o1) \<noteq> 0" "0 < op_routines o1"
  shows "\<exists>work w'. chunksWithin (parent o1) (work_rect (clampDown o1)) = Some work \<and>
     Do G o1 w = Some (checkErrors (applications G (clampDown o1) work w), clampDown o1, w') \<and>
     balanced w w' \<and>
     length (applications G (clampDown o1) work w) = length work \<and>
     (\<forall>c\<in>set work. map_of (chunks (caches w' (cache (parent o1))))
          (chunk_key (cache_root (caches w (cache (parent o1)))) (fst c) (snd c)) \<noteq> None)"
proof -
  have p: "parent (clampDown o1) = parent o1" "queue (clampDown o1) = queue o1"
    "op_routines (clampDown o1) = op_routines o1"
    by (simp_all add: clampDown_def)
  obtain work where W: "chunksWithin (parent o1) (work_rect (clampDown o1)) = Some work"
    using chunksWithin_total[OF assms(3)] by blast
  have m: "masks_ok (queue (clampDown o1))" using assms(2) p by simp
  from Do_worker_ok[OF assms(1) m, of G work] obtain errs w' where
    D: "Do_worker G (clampDown o1) work w = Some (errs, w')" "balanced w w'"
      "errs = non_nil (applications G (clampDown o1) work w)"
      "length (applications G (clampDown o1) work w) = length work"
      "\<forall>c\<in>set work. map_of (chunks (caches w' (cache (parent (clampDown o1)))))
          (chunk_key (cache_root (caches w (cache (parent (clampDown o1))))) (fst c) (snd c)) \<noteq> None"
    by blast
  have "checkErrors (map Some errs) = checkErrors (applications G (clampDown o1) work w)"
    by (simp add: checkErrors_fold D(3))
  then show ?thesis using W D assms(4) p
    by (auto simp: Do_def Let_def)
qed

section \<open>Evaluation on the small canvas\<close>

lemmas op_defs = SetFillStyle_def SetStrokeStyle_def SetLineWidth_def SetColor_def
  SetPixel_def SetMask_def InvertMask_def MoveTo_def LineTo_def ClosePath_def DrawRectangle_def
  RotateAbout_def DrawEllipse_def Fill_def Stroke_def Clear_def DrawImage_def enqueue_def
  minMax_def newOperation_def Width_def Height_def

lemmas geo_defs = Rect_def Intersect_def Sub_def Add_def in64_def wrap64_def sub64_def add64_def
  Empty_def ZR_def quo_def trunc_def
  toChunk_def chunksWithin_def work_rect_def clampDown_def

lemmas store_defs = upd_ctx_def setEdited_def maybeLoadImage_def unloadImage_def unload_def
  with_ctx_def Done_def newContext_def newCache_def Load_def Flush_def AtOk_def
  on_Img_def on_Img_edited_def apply_chunk_def Do_def checkErrors_def
  chunk_key_def itoa_def itoa_nat.simps

lemmas px_defs = pixel_gg_def px_SetPixel_def px_At_def px_blank_def px_draw_def in_rect_def
  small_image_def fresh_world_def red_def red_pixel_op_def red_dot_op_def

lemma wf_fresh_world [simp]: "wf_world fresh_world"
  by (simp add: wf_world_def fresh_world_def newCache_def)

lemma red_dot_op_facts:
  "masks_ok (queue red_dot_op)" "chunkSize (parent red_dot_op) \<noteq> 0" "0 < op_routines red_dot_op"
  by (simp_all add: red_dot_op_def SetPixel_def SetLineWidth_def SetColor_def enqueue_def
      minMax_def newOperation_def small_image_def masks_ok_def Let_def)

lemma red_pixel_work: "chunksWithin small_image (work_rect (clampDown red_pixel_op)) = Some []"
  by (simp add: op_defs geo_defs px_defs)

lemma key00: "chunk_key ''/tmp/m'' 0 0 = ''/tmp/m/0.0.png''"
  by (simp add: chunk_key_def itoa_def itoa_nat.simps)

section \<open>Error aggregation (C6)\<close>


lemma non_nil_append: "non_nil (xs @ ys) = non_nil xs @ non_nil ys"
  by (induction xs rule: non_nil.induct) simp_all

lemma sum_list_update_mset:
  fixes f :: "'a \<Rightarrow> 'b multiset"
  shows "i < length xs \<Longrightarrow> sum_list (map f (xs[i := y])) + f (xs ! i) = sum_list (map f xs) + f y"
proof (induction xs arbitrary: i)
  case Nil
  then show ?case by simp
next
  case (Cons x xs)
  show ?case
  proof (cases i)
    case 0
    then show ?thesis by (simp add: ac_simps)
  next
    case (Suc j)
    then have "j < length xs" using Cons.prems by simp
    from Cons.IH[OF this] show ?thesis using Suc by (simp add: ac_simps)
  qed
qed

lemma holding_update:
  "i < length rs \<Longrightarrow>
   holding (rs[i := r]) + (case rs ! i of Applying c \<Rightarrow> {#c#} | _ \<Rightarrow> {#}) =
   holding rs + (case r of Applying c \<Rightarrow> {#c#} | _ \<Rightarrow> {#})"
  unfolding holding_def by (rule sum_list_update_mset)

lemma sending_update:
  "i < length rs \<Longrightarrow>
   sending (rs[i := r]) + (case rs ! i of Sending e \<Rightarrow> {#e#} | _ \<Rightarrow> {#}) =
   sending rs + (case r of Sending e \<Rightarrow> {#e#} | _ \<Rightarrow> {#})"
  unfolding sending_def by (rule sum_list_update_mset)

lemma holding_idle: "(\<forall>r\<in>set rs. r = Receiving) \<Longrightarrow> holding rs = {#}"
  by (induction rs) (simp_all add: holding_def)

lemma sending_idle: "(\<forall>r\<in>set rs. r = Receiving) \<Longrightarrow> sending rs = {#}"
  by (induction rs) (simp_all add: sending_def)

lemma pool_step_inv:
  assumes wf: "wf_world w0" and mk: "masks_ok (queue o1)" and inv: "pool_inv w0 work s"
  shows "\<exists>s'. pool_step G o1 i s = Some s' \<and> pool_inv w0 work s' \<and>
     length (workers s') = length (workers s)"
proof (cases "length (workers s) \<le> i")
  case True
  then show ?thesis using inv by (simp add: pool_step_def)
next
  case False
  then have i: "i < length (workers s)" by simp
  note I = inv[unfolded pool_inv_def]
  show ?thesis
  proof (cases "workers s ! i")
    case Receiving
    show ?thesis
    proof (cases "todo s")
      case Nil
      then show ?thesis using inv i Receiving by (simp add: pool_step_def)
    next
      case (Cons c rest)
      have h: "holding ((workers s)[i := Applying c]) = holding (workers s) + {#c#}"
        using holding_update[OF i, of "Applying c"] Receiving by simp
      have e: "sending ((workers s)[i := Applying c]) = sending (workers s)"
        using sending_update[OF i, of "Applying c"] Receiving by simp
      show ?thesis using I i Receiving Cons
        by (simp add: pool_step_def pool_inv_def h e)
    qed
  next
    case (Applying c)
    have wfs: "wf_world (pstore s)" using I wf balanced_wf by blast
    from apply_chunk_ok[OF wfs mk, of G "fst c" "snd c"] obtain err w1 where
      A: "apply_chunk G o1 (fst c) (snd c) (pstore s) = Some (err, w1)" "balanced (pstore s) w1"
      by blast
    have b: "balanced w0 w1" using I A(2) balanced_trans by blast
    let ?r = "case err of None \<Rightarrow> Receiving | Some e \<Rightarrow> Sending e"
    have h: "holding ((workers s)[i := ?r]) + {#c#} = holding (workers s)"
      using holding_update[OF i, of ?r] Applying by (cases err) simp_all
    have e: "sending ((workers s)[i := ?r]) = sending (workers s) + mset (non_nil [err])"
      using sending_update[OF i, of ?r] Applying by (cases err) simp_all
    have k: "mset (map fst (trail s)) + (holding ((workers s)[i := ?r]) + {#c#}) + mset (todo s) = mset work"
      using I unfolding h by simp
    have g: "mset (got s) + (sending (workers s) + mset (non_nil [err])) =
        mset (non_nil (map snd (trail s))) + mset (non_nil [err])"
      using I by (simp add: add.assoc[symmetric])
    have p: "pool_step G o1 i s = Some (s\<lparr>workers := (workers s)[i := ?r],
                       trail := trail s @ [(c, err)], pstore := w1\<rparr>)"
      using i Applying A(1) by (simp add: pool_step_def)
    show ?thesis unfolding p using b k g
      by (simp add: pool_inv_def e non_nil_append)
  next
    case (Sending err)
    have h: "holding ((workers s)[i := Receiving]) = holding (workers s)"
      using holding_update[OF i, of Receiving] Sending by simp
    have e: "sending ((workers s)[i := Receiving]) + {#err#} = sending (workers s)"
      using sending_update[OF i, of Receiving] Sending by simp
    have k: "mset (got s) + (sending ((workers s)[i := Receiving]) + {#err#}) = mset (non_nil (map snd (trail s)))"
      using I unfolding e by simp
    have p: "pool_step G o1 i s = Some (s\<lparr>workers := (workers s)[i := Receiving], got := got s @ [err]\<rparr>)"
      using i Sending by (simp add: pool_step_def)
    show ?thesis unfolding p using I k
      by (simp add: pool_inv_def h)
  qed
qed

lemma pool_run_inv:
  assumes wf: "wf_world w0" and mk: "masks_ok (queue o1)"
  shows "pool_inv w0 work s \<Longrightarrow>
     \<exists>s'. pool_run G o1 sched s = Some s' \<and> pool_inv w0 work s' \<and>
       length (workers s') = length (workers s)"
proof (induction sched arbitrary: s)
  case Nil
  then show ?case by simp
next
  case (Cons i sched)
  from pool_step_inv[OF wf mk Cons.prems, of G i] obtain s1 where
    S: "pool_step G o1 i s = Some s1" "pool_inv w0 work s1" "length (workers s1) = length (workers s)"
    by blast
  from Cons.IH[OF S(2)] S(1,3) show ?case by auto
qed


lemma pool_inv_finished:
  assumes "pool_inv w0 work s" "finished s" "workers s \<noteq> []"
  shows "mset (map fst (trail s)) = mset work" "mset (got s) = mset (non_nil (map snd (trail s)))"
  using assms by (simp_all add: pool_inv_def finished_def holding_idle sending_idle)

lemma pool_inv_init:
  "pool_inv w work \<lparr>todo = work, workers = replicate n Receiving, got = [], trail = [], pstore = w\<rparr>"
  by (simp add: pool_inv_def holding_idle sending_idle)


lemma finished_stable: "finished s \<Longrightarrow> pool_run G o1 sched s = Some s"
proof (induction sched)
  case Nil
  show ?case by simp
next
  case (Cons i sched)
  have "pool_step G o1 i s = Some s"
  proof (cases "length (workers s) \<le> i")
    case True
    then show ?thesis by (simp add: pool_step_def)
  next
    case False
    then have "workers s ! i = Receiving" "todo s = []"
      using Cons.prems by (auto simp: finished_def)
    then show ?thesis by (simp add: pool_step_def)
  qed
  then show ?case using Cons by simp
qed





lemma pool_run_idle:
  "todo s = [] \<Longrightarrow> workers s = Receiving # rs \<Longrightarrow> pool_run G o1 (replicate n 0) s = Some s"
  by (induction n) (simp_all add: pool_step_def)

lemma pool_run_sequential:
  assumes "Do_worker G o1 ks w = Some (errs, w')" "3 * length ks \<le> n"
  shows "\<exists>tr. pool_run G o1 (replicate n 0)
           \<lparr>todo = ks, workers = Receiving # rs, got = g, trail = t, pstore = w\<rparr> =
         Some \<lparr>todo = [], workers = Receiving # rs, got = g @ errs, trail = t @ tr, pstore = w'\<rparr>"
  using assms
proof (induction ks arbitrary: n w g t errs)
  case Nil
  then show ?case by (simp add: pool_run_idle)
next
  case (Cons c ks)
  from Cons.prems(1) obtain err w1 errs1 where
    A: "apply_chunk G o1 (fst c) (snd c) w = Some (err, w1)"
      "Do_worker G o1 ks w1 = Some (errs1, w')"
      "errs = (case err of None \<Rightarrow> [] | Some e \<Rightarrow> [e]) @ errs1"
    by (auto split: option.splits)
  from Cons.prems(2) obtain n1 where n: "n = Suc (Suc (Suc n1))" "3 * length ks \<le> n1"
    by (cases n; simp; rename_tac a; case_tac a; simp; rename_tac b; case_tac b; simp)
  show ?case
  proof (cases err)
    case None
    have n2: "3 * length ks \<le> Suc n1" using n(2) by simp
    from Cons.IH[OF A(2) n2, of g "t @ [(c, None)]"] obtain tr where
      "pool_run G o1 (replicate (Suc n1) 0)
           \<lparr>todo = ks, workers = Receiving # rs, got = g, trail = t @ [(c, None)], pstore = w1\<rparr> =
         Some \<lparr>todo = [], workers = Receiving # rs, got = g @ errs1, trail = (t @ [(c, None)]) @ tr,
               pstore = w'\<rparr>"
      by blast
    then show ?thesis using A(1,3) None unfolding n(1)
      by (intro exI[of _ "(c, None) # tr"]) (simp add: pool_step_def)
  next
    case (Some e)
    from Cons.IH[OF A(2) n(2), of "g @ [e]" "t @ [(c, Some e)]"] obtain tr where
      "pool_run G o1 (replicate n1 0)
           \<lparr>todo = ks, workers = Receiving # rs, got = g @ [e], trail = t @ [(c, Some e)], pstore = w1\<rparr> =
         Some \<lparr>todo = [], workers = Receiving # rs, got = (g @ [e]) @ errs1,
               trail = (t @ [(c, Some e)]) @ tr, pstore = w'\<rparr>"
      by blast
    then show ?thesis using A(1,3) Some unfolding n(1)
      by (intro exI[of _ "(c, Some e) # tr"]) (simp add: pool_step_def)
  qed
qed

lemma Do_is_a_run:
  assumes "0 < op_routines o1" "Do G o1 w = Some r"
  shows "\<exists>work. chunksWithin (parent o1) (work_rect (clampDown o1)) = Some work \<and>
     Do_sched G (replicate (3 * length work) 0) o1 w = Returned r"
proof -
  have p: "parent (clampDown o1) = parent o1" "op_routines (clampDown o1) = op_routines o1"
    by (simp_all add: clampDown_def)
  from assms obtain work errs w' where
    D: "chunksWithin (parent o1) (work_rect (clampDown o1)) = Some work"
      "Do_worker G (clampDown o1) work w = Some (errs, w')"
      "r = (checkErrors (map Some errs), clampDown o1, w')"
    by (auto simp: Do_def Let_def p split: option.splits if_splits)
  obtain k where k: "nat (op_routines o1) = Suc k" using assms(1) by (cases "nat (op_routines o1)") auto
  from pool_run_sequential[OF D(2) order_refl, of "replicate k Receiving" "[]" "[]"] obtain tr where
    "pool_run G (clampDown o1) (replicate (3 * length work) 0)
           \<lparr>todo = work, workers = Receiving # replicate k Receiving, got = [], trail = [], pstore = w\<rparr> =
         Some \<lparr>todo = [], workers = Receiving # replicate k Receiving, got = [] @ errs, trail = [] @ tr,
               pstore = w'\<rparr>"
    by blast
  then show ?thesis using D(1,3) k
    by (simp add: Do_sched_def Do_pool_def Let_def p finished_def)
qed




lemma clear_op_Do:
  "\<exists>w'. Do pixel_gg clear_op corrupt_world =
      Some (Some (Errorf_w_v (Err ''png: invalid format'') (Err ''unexpected EOF'')),
            clampDown clear_op, w') \<and>
     nctx w' = 4 \<and> edited (ctxs w' 1) \<and> edited (ctxs w' 2) \<and>
     \<not> edited (ctxs w' 0) \<and> \<not> edited (ctxs w' 3)"
  by (simp add: clear_op_def corrupt_world_def Let_def op_defs geo_defs store_defs px_defs upto.simps)





lemma two_routines_in_turn:
  "\<exists>w'. Do_sched pixel_gg (replicate 12 0) (SetRoutines 2 clear_op) corrupt_world =
     Returned (Some (Errorf_w_v (Err ''png: invalid format'') (Err ''unexpected EOF'')),
               clampDown (SetRoutines 2 clear_op), w')"
  by (simp add: Do_sched_def Do_pool_def pool_step_def finished_def SetRoutines_def clear_op_def corrupt_world_def
      Let_def op_defs geo_defs store_defs px_defs upto.simps numeral_2_eq_2 eval_nat_numeral)


section \<open>What does not depend on the schedule\<close>

text \<open>
  Under every schedule, when \<open>Do\<close> has returned with at least one goroutine, every
  key of the work list has a context in the cache.  With one goroutine, whatever the
  schedule, \<open>Do\<close> returns what the run in turn returns.
\<close>

lemma pool_step_registers:
  assumes wf: "wf_world w0" and mk: "masks_ok (queue o1)" and inv: "pool_inv w0 work s"
    and reg: "\<forall>c\<in>set (map fst (trail s)). map_of (chunks (caches (pstore s) (cache (parent o1))))
          (chunk_key (cache_root (caches w0 (cache (parent o1)))) (fst c) (snd c)) \<noteq> None"
    and st: "pool_step G o1 i s = Some s1"
  shows "\<forall>c\<in>set (map fst (trail s1)). map_of (chunks (caches (pstore s1) (cache (parent o1))))
          (chunk_key (cache_root (caches w0 (cache (parent o1)))) (fst c) (snd c)) \<noteq> None"
proof (cases "i < length (workers s) \<and> (\<exists>c. workers s ! i = Applying c)")
  case False
  then have "trail s1 = trail s" "pstore s1 = pstore s"
    using st by (auto simp: pool_step_def split: if_splits routine.splits list.splits)
  then show ?thesis using reg by simp
next
  case True
  then obtain c where c: "i < length (workers s)" "workers s ! i = Applying c" by blast
  have b0: "balanced w0 (pstore s)" using inv by (simp add: pool_inv_def)
  have wfs: "wf_world (pstore s)" using b0 wf by (rule balanced_wf)
  from apply_chunk_ok[OF wfs mk, of G "fst c" "snd c"] obtain err w1 where
    A: "apply_chunk G o1 (fst c) (snd c) (pstore s) = Some (err, w1)" "balanced (pstore s) w1"
      "map_of (chunks (caches w1 (cache (parent o1))))
        (chunk_key (cache_root (caches (pstore s) (cache (parent o1)))) (fst c) (snd c)) \<noteq> None"
    by blast
  have s1: "trail s1 = trail s @ [(c, err)]" "pstore s1 = w1"
    using st c A(1) by (auto simp: pool_step_def)
  show ?thesis
    unfolding s1 using reg A(3) balanced_registered[OF A(2)] balanced_root[OF b0]
    by auto
qed

lemma pool_run_registers:
  assumes wf: "wf_world w0" and mk: "masks_ok (queue o1)"
  shows "pool_inv w0 work s \<Longrightarrow>
     \<forall>c\<in>set (map fst (trail s)). map_of (chunks (caches (pstore s) (cache (parent o1))))
          (chunk_key (cache_root (caches w0 (cache (parent o1)))) (fst c) (snd c)) \<noteq> None \<Longrightarrow>
     pool_run G o1 sched s = Some s' \<Longrightarrow>
     \<forall>c\<in>set (map fst (trail s')). map_of (chunks (caches (pstore s') (cache (parent o1))))
          (chunk_key (cache_root (caches w0 (cache (parent o1)))) (fst c) (snd c)) \<noteq> None"
proof (induction sched arbitrary: s)
  case Nil
  then show ?case by simp
next
  case (Cons i sched)
  from Cons.prems(3) obtain s1 where
    S: "pool_step G o1 i s = Some s1" "pool_run G o1 sched s1 = Some s'"
    by (auto split: option.splits)
  from pool_step_inv[OF wf mk Cons.prems(1), of G i] S(1) have i1: "pool_inv w0 work s1" by auto
  from pool_step_registers[OF wf mk Cons.prems(1,2) S(1)] Cons.IH[OF i1 _ S(2)]
  show ?case by blast
qed

lemma Do_sched_visits_every_key:
  assumes "wf_world w" "masks_ok (queue o1)" "0 < op_routines o1"
    and W: "chunksWithin (parent o1) (work_rect (clampDown o1)) = Some work"
    and R: "Do_sched G sched o1 w = Returned (e, o2, w')"
  shows "\<forall>c\<in>set work. map_of (chunks (caches w' (cache (parent o1))))
          (chunk_key (cache_root (caches w (cache (parent o1)))) (fst c) (snd c)) \<noteq> None"
proof -
  have p: "parent (clampDown o1) = parent o1" "queue (clampDown o1) = queue o1"
    "op_routines (clampDown o1) = op_routines o1"
    by (simp_all add: clampDown_def)
  let ?init = "\<lparr>todo = work, workers = replicate (nat (op_routines o1)) Receiving, got = [],
      trail = [], pstore = w\<rparr>"
  from R W obtain s where
    S: "pool_run G (clampDown o1) sched ?init = Some s" "finished s" "w' = pstore s"
    by (auto simp: Do_sched_def Do_pool_def Let_def p split: option.splits if_splits)
  have m: "masks_ok (queue (clampDown o1))" using assms(2) p by simp
  from pool_run_inv[OF assms(1) m pool_inv_init, of G sched work "nat (op_routines o1)"] S(1)
  have I: "pool_inv w work s" "length (workers s) = nat (op_routines o1)" by auto
  then have "workers s \<noteq> []" using assms(3) by auto
  from pool_inv_finished(1)[OF I(1) S(2) this] have "set (map fst (trail s)) = set work"
    by (rule mset_eq_setD)
  moreover from pool_run_registers[OF assms(1) m pool_inv_init _ S(1)]
  have "\<forall>c\<in>set (map fst (trail s)). map_of (chunks (caches (pstore s) (cache (parent o1))))
          (chunk_key (cache_root (caches w (cache (parent o1)))) (fst c) (snd c)) \<noteq> None"
    by (simp add: p)
  ultimately show ?thesis using S(3) by simp
qed

lemma pool_step_one_goroutine:
  assumes "workers s = [r]" "pool_step G o1 i s = Some s1"
    and "Do_worker G o1 ((case r of Applying c \<Rightarrow> [c] | _ \<Rightarrow> []) @ todo s) (pstore s) = Some (es, w2)"
  shows "\<exists>r1 es1. workers s1 = [r1] \<and>
     Do_worker G o1 ((case r1 of Applying c \<Rightarrow> [c] | _ \<Rightarrow> []) @ todo s1) (pstore s1) = Some (es1, w2) \<and>
     got s1 @ (case r1 of Sending e \<Rightarrow> [e] | _ \<Rightarrow> []) @ es1 =
     got s @ (case r of Sending e \<Rightarrow> [e] | _ \<Rightarrow> []) @ es"
proof (cases "i = 0")
  case False
  then have "s1 = s" using assms(1,2) by (simp add: pool_step_def)
  then show ?thesis using assms(1,3) by auto
next
  case True
  show ?thesis
  proof (cases r)
    case Receiving
    show ?thesis
    proof (cases "todo s")
      case Nil
      then have "s1 = s" using assms(1,2) True Receiving by (simp add: pool_step_def)
      then show ?thesis using assms(1,3) by auto
    next
      case (Cons c rest)
      then have "s1 = s\<lparr>todo := rest, workers := [Applying c]\<rparr>"
        using assms(1,2) True Receiving by (simp add: pool_step_def)
      then show ?thesis using assms(3) Receiving Cons by simp
    qed
  next
    case (Applying c)
    from assms(3) Applying obtain err w1 es1 where
      A: "apply_chunk G o1 (fst c) (snd c) (pstore s) = Some (err, w1)"
        "Do_worker G o1 (todo s) w1 = Some (es1, w2)"
        "es = (case err of None \<Rightarrow> [] | Some e \<Rightarrow> [e]) @ es1"
      by (auto split: option.splits)
    have "s1 = s\<lparr>workers := [case err of None \<Rightarrow> Receiving | Some e \<Rightarrow> Sending e],
                       trail := trail s @ [(c, err)], pstore := w1\<rparr>"
      using assms(1,2) True Applying A(1) by (simp add: pool_step_def)
    then show ?thesis using A(2,3) Applying by (cases err) simp_all
  next
    case (Sending e)
    then have "s1 = s\<lparr>workers := [Receiving], got := got s @ [e]\<rparr>"
      using assms(1,2) True by (simp add: pool_step_def)
    then show ?thesis using assms(3) Sending by simp
  qed
qed

lemma pool_run_one_goroutine:
  "workers s = [r] \<Longrightarrow> pool_run G o1 sched s = Some s' \<Longrightarrow>
   Do_worker G o1 ((case r of Applying c \<Rightarrow> [c] | _ \<Rightarrow> []) @ todo s) (pstore s) = Some (es, w2) \<Longrightarrow>
   \<exists>r1 es1. workers s' = [r1] \<and>
     Do_worker G o1 ((case r1 of Applying c \<Rightarrow> [c] | _ \<Rightarrow> []) @ todo s') (pstore s') = Some (es1, w2) \<and>
     got s' @ (case r1 of Sending e \<Rightarrow> [e] | _ \<Rightarrow> []) @ es1 =
     got s @ (case r of Sending e \<Rightarrow> [e] | _ \<Rightarrow> []) @ es"
proof (induction sched arbitrary: s r es)
  case Nil
  then show ?case by auto
next
  case (Cons i sched)
  from Cons.prems(2) obtain s1 where
    S: "pool_step G o1 i s = Some s1" "pool_run G o1 sched s1 = Some s'"
    by (auto split: option.splits)
  from pool_step_one_goroutine[OF Cons.prems(1) S(1) Cons.prems(3)] obtain r1 es1 where
    A: "workers s1 = [r1]"
      "Do_worker G o1 ((case r1 of Applying c \<Rightarrow> [c] | _ \<Rightarrow> []) @ todo s1) (pstore s1) = Some (es1, w2)"
      "got s1 @ (case r1 of Sending e \<Rightarrow> [e] | _ \<Rightarrow> []) @ es1 =
       got s @ (case r of Sending e \<Rightarrow> [e] | _ \<Rightarrow> []) @ es"
    by blast
  from Cons.IH[OF A(1) S(2) A(2)] A(3) show ?case by auto
qed

lemma Do_one_goroutine:
  assumes "op_routines o1 = 1" "Do G o1 w = Some r" "Do_sched G sched o1 w = Returned r'"
  shows "r' = r"
proof -
  have p: "parent (clampDown o1) = parent o1" "op_routines (clampDown o1) = op_routines o1"
    by (simp_all add: clampDown_def)
  from assms(1,2) obtain work errs w' where
    D: "chunksWithin (parent o1) (work_rect (clampDown o1)) = Some work"
      "Do_worker G (clampDown o1) work w = Some (errs, w')"
      "r = (checkErrors (map Some errs), clampDown o1, w')"
    by (auto simp: Do_def Let_def p split: option.splits if_splits)
  let ?init = "\<lparr>todo = work, workers = [Receiving], got = [], trail = [], pstore = w\<rparr>"
  from assms(1,3) D(1) obtain s where
    S: "pool_run G (clampDown o1) sched ?init = Some s" "finished s"
      "r' = (checkErrors (map Some (got s)), clampDown o1, pstore s)"
    by (auto simp: Do_sched_def Do_pool_def Let_def p split: option.splits if_splits)
  from pool_run_one_goroutine[of ?init Receiving G "clampDown o1" sched s errs w'] S(1) D(2)
  obtain r1 es1 where
    A: "workers s = [r1]"
      "Do_worker G (clampDown o1) ((case r1 of Applying c \<Rightarrow> [c] | _ \<Rightarrow> []) @ todo s) (pstore s) = Some (es1, w')"
      "got s @ (case r1 of Sending e \<Rightarrow> [e] | _ \<Rightarrow> []) @ es1 = errs"
    by auto
  have "r1 = Receiving" "todo s = []" using S(2) A(1) by (auto simp: finished_def)
  then have "pstore s = w'" "got s = errs" using A(2,3) by auto
  then show ?thesis using S(3) D(3) by simp
qed

section \<open>Release of the chunk (C8)\<close>

lemma Load_readers:
  assumes "Load G cp x y w = (a, e, w1)" "wf_world w"
  shows "readers (ctxs w1 a) = (if a < nctx w then readers (ctxs w a) + 1 else 1) \<and>
    (nctx w \<le> a \<longrightarrow> a = nctx w)"
  using assms(1)
proof (cases rule: Load_char)
  case (hit c')
  have "a < nctx w" using hit(1) assms(2) by (auto simp: wf_world_def)
  moreover have "readers c' = readers (ctxs w a)" using hit(2) by (rule ctx_read_ok_fields(1))
  ultimately show ?thesis using hit(3) by simp
next
  case (miss c')
  have "readers c' = 0" using ctx_read_ok_fields(1)[OF miss(3)] by (simp add: newContext_def)
  then show ?thesis using miss(2,4) by simp
qed

lemma apply_chunk_paths:
  assumes L: "Load G (cache (parent o1)) x y w = (a, e, w1)"
    and "wf_world w" "masks_ok (queue o1)"
  shows "\<exists>res w'. apply_chunk G o1 x y w = Some (res, w') \<and> balanced w w' \<and>
     nctx w1 \<le> nctx w' \<and> (e \<noteq> None \<longrightarrow> res = e \<and> w' = release a w1)"
proof -
  note D = Load_Done[OF L] and A = Load_acquire[OF L assms(2)]
  have b1: "balanced w (release a w1)" using D(2) by (rule read_frame_balanced)
  show ?thesis
  proof (cases e)
    case (Some err)
    then show ?thesis using L D(1) b1 by (auto simp: apply_chunk_def)
  next
    case None
    from apply_loop_ok[where G=G and ox="x * chunkSize (parent o1)"
        and oy="y * chunkSize (parent o1)", OF A(1) D(3)[OF None] assms(3)]
    obtain e2 w2 where
      R: "apply_loop G a (x * chunkSize (parent o1)) (y * chunkSize (parent o1)) (queue o1) w1
            = Some (e2, w2)" "balanced w1 w2"
      by blast
    have "readers (ctxs w2 a) = readers (ctxs w1 a)" using R(2) A(1) by (simp add: balanced_def)
    then have d: "Done a w2 = Some (release a w2)" using D(4) by (simp add: Done_release)
    have b2: "balanced w (release a w2)" using balanced_release_shift[OF b1 R(2) A(1)] .
    have "nctx w1 \<le> nctx w2" using R(2) by (simp add: balanced_def reg_grows_def)
    then show ?thesis using L None R(1) d b2 by (auto simp: apply_chunk_def)
  qed
qed

text \<open>
  C8.  \<open>apply\<close> on a chunk never panics: the context \<open>Load\<close> returns is an allocated
  context (never nil), also when \<open>Load\<close> returns an error, and the deferred \<open>Done\<close>
  finds the lock held.  Whatever \<open>apply\<close> returns (the error of \<open>Load\<close>, the error
  of a \<open>SetMask\<close> read in the middle of the queue, or nil), the chunk has one holder less
  than right after \<open>Load\<close>, every context that existed before has as many holders as
  before, and every context created meanwhile has none: the token is released exactly
  once.
\<close>

theorem apply_releases_once:
  assumes "wf_world w" "masks_ok (queue o1)"
  shows "\<exists>a e w1 res w'.
     Load G (cache (parent o1)) x y w = (a, e, w1) \<and> a < nctx w1 \<and>
     apply_chunk G o1 x y w = Some (res, w') \<and>
     (e \<noteq> None \<longrightarrow> res = e) \<and>
     readers (ctxs w1 a) = readers (ctxs w' a) + 1 \<and>
     (\<forall>b<nctx w. readers (ctxs w' b) = readers (ctxs w b)) \<and>
     (\<forall>b. nctx w \<le> b \<and> b < nctx w' \<longrightarrow> readers (ctxs w' b) = 0)"
proof -
  obtain a e w1 where L: "Load G (cache (parent o1)) x y w = (a, e, w1)"
    by (metis prod_cases3)
  note A = Load_acquire[OF L assms(1)]
  have R: "readers (ctxs w1 a) = (if a < nctx w then readers (ctxs w a) + 1 else 1)"
    using Load_readers[OF L assms(1)] by simp
  from apply_chunk_paths[OF L assms] obtain res w' where
    P: "apply_chunk G o1 x y w = Some (res, w')" "balanced w w'" "nctx w1 \<le> nctx w'"
      "e \<noteq> None \<longrightarrow> res = e"
    by blast
  have old: "\<forall>b<nctx w. readers (ctxs w' b) = readers (ctxs w b)"
    and new: "\<forall>b. nctx w \<le> b \<and> b < nctx w' \<longrightarrow> readers (ctxs w' b) = 0"
    using P(2) by (simp_all add: balanced_def)
  have "readers (ctxs w1 a) = readers (ctxs w' a) + 1"
  proof (cases "a < nctx w")
    case True
    then show ?thesis using R old by simp
  next
    case False
    then have "readers (ctxs w' a) = 0" using new A(1) P(3) by simp
    then show ?thesis using R False by simp
  qed
  then show ?thesis using L A(1) P(1,4) old new by blast
qed

lemma wf_mask_world: "wf_world mask_world"
  by (simp add: wf_world_def mask_world_def fresh_world_def newCache_def)

lemma masked_op_facts: "masks_ok (queue masked_op)"
  by (simp add: masked_op_def op_defs masks_ok_def mask_image_def)

lemma masked_op_apply:
  "\<exists>w'. apply_chunk pixel_gg masked_op 0 0 mask_world = Some (Some (Err ''unexpected EOF''), w') \<and>
     nctx w' = 2 \<and> readers (ctxs w' 0) = 0 \<and> readers (ctxs w' 1) = 0 \<and>
     \<not> edited (ctxs w' 0) \<and> fst (snd (Load pixel_gg (cache (parent masked_op)) 0 0 mask_world)) = None"
  by (simp add: masked_op_def mask_world_def mask_image_def Mask_def Let_def op_defs geo_defs
      store_defs px_defs upto.simps)

theorem apply_releases_once_witness:
  "wf_world mask_world \<and> masks_ok (queue masked_op) \<and>
   (\<exists>a e w1 res w'.
     Load pixel_gg (cache (parent masked_op)) 0 0 mask_world = (a, e, w1) \<and> a < nctx w1 \<and>
     e = None \<and>
     apply_chunk pixel_gg masked_op 0 0 mask_world = Some (res, w') \<and>
     res = Some (Err ''unexpected EOF'') \<and>
     readers (ctxs w1 a) = readers (ctxs w' a) + 1 \<and>
     readers (ctxs w' 0) = 0 \<and> readers (ctxs w' 1) = 0)"
proof -
  from apply_releases_once[OF wf_mask_world masked_op_facts, of pixel_gg 0 0]
  obtain a e w1 res w' where
    T: "Load pixel_gg (cache (parent masked_op)) 0 0 mask_world = (a, e, w1)" "a < nctx w1"
      "apply_chunk pixel_gg masked_op 0 0 mask_world = Some (res, w')"
      "readers (ctxs w1 a) = readers (ctxs w' a) + 1"
    by blast
  from masked_op_apply T(1,3) have
    "e = None" "res = Some (Err ''unexpected EOF'')" "readers (ctxs w' 0) = 0"
    "readers (ctxs w' 1) = 0"
    by auto
  then show ?thesis using T wf_mask_world masked_op_facts by blast
qed

text \<open>
  The same when the mask is the image itself: \<open>Mask\<close> takes and releases the chunk that
  \<open>apply\<close> holds, and the three other chunks of the image, and every count is 0 at the
  end.
\<close>

lemma self_masked_op_apply:
  "\<exists>w'. apply_chunk pixel_gg self_masked_op 0 0 fresh_world = Some (None, w') \<and>
     nctx w' = 4 \<and> readers (ctxs w' 0) = 0 \<and> readers (ctxs w' 1) = 0 \<and>
     readers (ctxs w' 2) = 0 \<and> readers (ctxs w' 3) = 0 \<and> edited (ctxs w' 0)"
  by (simp add: self_masked_op_def Mask_def Let_def op_defs geo_defs
      store_defs px_defs upto.simps)

section \<open>A pixel set alone (C5)\<close>

text \<open>
  An operation that only sets a colour and one pixel inside the canvas has a bounding box
  of width and height zero when it reaches \<open>Do\<close>: \<open>image.Rect\<close> of it is empty, no
  key is sent and the store is left as it was.
\<close>

lemma SetPixel_alone_visits_nothing:
  fixes o1 :: "('p, 'g) operation"
  assumes "0 \<le> x" "x \<le> Width m" "0 \<le> y" "y \<le> Height m"
    and o1_def: "o1 = SetPixel x y (SetColor c (newOperation m))"
  shows "Do G o1 w = Some (None, clampDown o1, w)"
proof -
  have r: "work_rect (clampDown o1) = Rectangle x y x y"
    using assms(1-4) by (simp add: o1_def op_defs work_rect_def clampDown_def trunc_def Rect_def
        min_def max_def)
  have "chunksWithin (parent (clampDown o1)) (work_rect (clampDown o1)) = Some []"
    unfolding r by (simp add: chunksWithin_def Intersect_def Empty_def ZR_def Let_def)
  then show ?thesis
    by (simp add: Do_def Let_def checkErrors_def)
qed

text \<open>
  C5 (code evaluated at the failing input).  On a new canvas of 10 by 10 with chunks of 5,
  the operation \<open>SetColor(red); SetPixel(3, 3)\<close> followed by \<open>Do\<close> and \<open>Flush\<close>
  leaves the store unchanged, both calls return nil, and \<open>AtOk(3, 3)\<close> then returns the
  transparent colour of a blank chunk, not red.
\<close>

theorem SetPixel_alone_is_lost:
  "Do pixel_gg red_pixel_op fresh_world = Some (None, clampDown red_pixel_op, fresh_world) \<and>
   Flush pixel_gg (cache small_image) fresh_world = (None, fresh_world) \<and>
   (case AtOk pixel_gg small_image 3 3 fresh_world of
      None \<Rightarrow> False
    | Some ((c, e), w1) \<Rightarrow> c = RGBA 0 0 0 0 \<and> e = None) \<and>
   red \<noteq> RGBA 0 0 0 0"
proof -
  have "Do pixel_gg red_pixel_op fresh_world = Some (None, clampDown red_pixel_op, fresh_world)"
    using red_pixel_work
    by (simp add: Do_def Let_def checkErrors_def red_pixel_op_def op_defs small_image_def
        clampDown_def)
  moreover have "Flush pixel_gg (cache small_image) fresh_world = (None, fresh_world)"
    by (simp add: Flush_def fresh_world_def newCache_def small_image_def)
  moreover have "case AtOk pixel_gg small_image 3 3 fresh_world of
      None \<Rightarrow> False
    | Some ((c, e), w1) \<Rightarrow> c = RGBA 0 0 0 0 \<and> e = None"
    by (simp add: geo_defs store_defs px_defs Let_def)
  moreover have "red \<noteq> RGBA 0 0 0 0" by (simp add: red_def)
  ultimately show ?thesis by blast
qed

text \<open>
  With a line width set first the box is not empty and the round trip succeeds: the pixel
  is written, \<open>Flush\<close> writes the chunk and drops it, and the read returns red.
\<close>

lemma round_trip_with_line_width:
  "\<exists>o2 w1 w2 w3. Do pixel_gg red_dot_op fresh_world = Some (None, o2, w1) \<and>
     Flush pixel_gg (cache small_image) w1 = (None, w2) \<and>
     writes w2 = [''/tmp/m/0.0.png''] \<and> Img (ctxs w2 0) = None \<and>
     AtOk pixel_gg small_image 3 3 w2 = Some ((red, None), w3)"
  by (simp add: Let_def op_defs geo_defs store_defs px_defs upto.simps)

section \<open>Eviction (C4)\<close>

lemma dotted_world_eval:
  "Do pixel_gg red_dot_op fresh_world = Some (None, clampDown red_dot_op, dotted_world)"
  "nctx dotted_world = 1"
  "chunks (caches dotted_world 0) = [(''/tmp/m/0.0.png'', 0)]"
  "key (ctxs dotted_world 0) = ''/tmp/m/0.0.png''"
  "edited (ctxs dotted_world 0)"
  "readers (ctxs dotted_world 0) = 0"
  "Img (ctxs dotted_world 0) \<noteq> None"
  "writes dotted_world = []"
  "unwritable dotted_world = (\<lambda>_. None)"
  by (simp_all add: dotted_world_def Let_def op_defs geo_defs store_defs px_defs upto.simps)

text \<open>
  C4 (as amended).  A round of the eviction loop on a materialized chunk: when the chunk
  is not dirty nothing is written; when it is dirty and the write succeeds the canvas is
  written to the chunk's path; in both cases the canvas handle becomes nil and every other
  field of the context, the dirty flag included, stays as it was.  When the write fails the
  error is logged and nothing else changes: the canvas handle is retained.
\<close>

theorem unload_materialized:
  fixes G :: "('c, 'p, 'a, 'g) gglib" and w :: "('c, 'p) world" and a :: nat and i :: 'c
  assumes "Img (ctxs w a) = Some i"
  defines "c \<equiv> ctxs w a" and "w' \<equiv> unload G a w"
  shows "(\<not> edited c \<longrightarrow>
            files w' = files w \<and> writes w' = writes w \<and> logs w' = logs w \<and>
            ctxs w' = (ctxs w)(a := c\<lparr>Img := None\<rparr>)) \<and>
         (edited c \<and> unwritable w (key c) = None \<longrightarrow>
            files w' = (files w)(key c \<mapsto> PNG (gg_Image G i)) \<and> writes w' = key c # writes w \<and>
            logs w' = logs w \<and> ctxs w' = (ctxs w)(a := c\<lparr>Img := None\<rparr>)) \<and>
         (\<forall>e. edited c \<and> unwritable w (key c) = Some e \<longrightarrow>
            w' = w\<lparr>logs := (key c, e) # logs w\<rparr>)"
  using assms(1) by (auto simp: c_def w'_def unload_def unloadImage_def Let_def)

theorem unload_materialized_witness:
  "\<exists>i. Img (ctxs dotted_world 0) = Some i \<and> edited (ctxs dotted_world 0) \<and>
       unwritable dotted_world (key (ctxs dotted_world 0)) = None \<and>
       files (unload pixel_gg 0 dotted_world) =
         (files dotted_world)(key (ctxs dotted_world 0) \<mapsto> PNG (gg_Image pixel_gg i)) \<and>
       writes (unload pixel_gg 0 dotted_world) = [''/tmp/m/0.0.png''] \<and>
       Img (ctxs (unload pixel_gg 0 dotted_world) 0) = None"
proof -
  obtain i where i: "Img (ctxs dotted_world 0) = Some i"
    using dotted_world_eval(7) by blast
  from unload_materialized[OF i, of pixel_gg] dotted_world_eval(4,5,8,9) i
  show ?thesis by simp
qed

text \<open>
  C4 as stated fails: after \<open>Do\<close> on \<open>red_dot_op\<close> chunk (0,0) is materialized and
  dirty; the eviction round writes it, logs nothing and drops the canvas, and the dirty
  flag is still set.
\<close>

theorem unload_keeps_dirty_flag_counterexample:
  "Do pixel_gg red_dot_op fresh_world = Some (None, clampDown red_dot_op, dotted_world) \<and>
   edited (ctxs dotted_world 0) \<and> Img (ctxs dotted_world 0) \<noteq> None \<and>
   writes (unload pixel_gg 0 dotted_world) = [''/tmp/m/0.0.png''] \<and>
   logs (unload pixel_gg 0 dotted_world) = [] \<and>
   Img (ctxs (unload pixel_gg 0 dotted_world) 0) = None \<and>
   edited (ctxs (unload pixel_gg 0 dotted_world) 0)"
  by (simp add: dotted_world_def Let_def op_defs geo_defs store_defs px_defs upto.simps)

section \<open>The read path (C9)\<close>

lemma read_frame_unchanged:
  assumes "read_frame G w w'"
  shows "unchanged_by_read G w w'"
proof -
  have old: "edited (ctxs w' b) = edited (ctxs w b) \<and> canvas_of G w' b = canvas_of G w b"
    if "b < nctx w" for b
  proof -
    have "ctx_read_ok G (files w) (ctxs w b) (ctxs w' b)" "files w' = files w"
      using that assms by (simp_all add: read_frame_def)
    then show ?thesis
      by (auto simp: ctx_read_ok_def canvas_of_def split: option.splits)
  qed
  have new: "\<not> edited (ctxs w' b)" if "nctx w \<le> b" "b < nctx w'" for b
  proof -
    have "\<exists>k x y cs. ctx_read_ok G (files w) (newContext k x y cs) (ctxs w' b)"
      using that assms unfolding read_frame_def by blast
    then show ?thesis by (auto simp: ctx_read_ok_def newContext_def)
  qed
  have ev: "writes (unload G b w') = writes w' \<and> files (unload G b w') = files w'"
    if "\<not> edited (ctxs w' b)" for b
    using that by (simp add: unload_def unloadImage_def Let_def split: option.splits)
  show ?thesis using assms old new ev
    by (simp add: unchanged_by_read_def read_frame_def)
qed

lemma At_read_frame:
  assumes "chunkSize m \<noteq> 0"
  shows "\<exists>c w'. At G m x y w = Some (c, w') \<and> read_frame G w w'"
  using AtOk_read_frame[OF assms, of G x y w] by (auto simp: At_def)

text \<open>
  C9 (as amended).  On an image whose chunk size is not zero, \<open>Image\<close>, \<open>Mask\<close>,
  \<open>AtOk\<close> and \<open>At\<close> return without a panic and leave the disk, the dirty flag and the pixel data
  of every chunk unchanged (a context they create is not dirty); an eviction after the
  read writes no chunk whose dirty flag is clear.
\<close>

theorem reads_leave_chunks_unchanged:
  assumes "chunkSize m \<noteq> 0"
  shows "(\<exists>res w'. Image G m r w = Some (res, w') \<and> unchanged_by_read G w w') \<and>
         (\<exists>res w'. Mask G m r w = Some (res, w') \<and> unchanged_by_read G w w') \<and>
         (\<exists>res w'. AtOk G m x y w = Some (res, w') \<and> unchanged_by_read G w w') \<and>
         (\<exists>c w'. At G m x y w = Some (c, w') \<and> unchanged_by_read G w w')"
  using Image_read_frame[OF assms, of G r w] Mask_read_frame[OF assms, of G r w]
    AtOk_read_frame[OF assms, of G x y w] At_read_frame[OF assms, of G x y w]
    read_frame_unchanged[of G w]
  by blast

theorem reads_leave_chunks_unchanged_witness:
  "chunkSize small_image \<noteq> 0 \<and>
   (\<exists>res w'. Image pixel_gg small_image (Rect 0 0 10 10) dotted_world = Some (res, w') \<and>
        unchanged_by_read pixel_gg dotted_world w') \<and>
   (\<exists>res w'. Mask pixel_gg small_image (Rect 0 0 10 10) dotted_world = Some (res, w') \<and>
        unchanged_by_read pixel_gg dotted_world w') \<and>
   (\<exists>res w'. AtOk pixel_gg small_image 3 3 dotted_world = Some (res, w') \<and>
        unchanged_by_read pixel_gg dotted_world w') \<and>
   (\<exists>c w'. At pixel_gg small_image 3 3 dotted_world = Some (c, w') \<and>
        unchanged_by_read pixel_gg dotted_world w')"
proof -
  have h: "chunkSize small_image \<noteq> 0" by (simp add: small_image_def)
  from reads_leave_chunks_unchanged[OF h, of pixel_gg "Rect 0 0 10 10" dotted_world 3 3] h
  show ?thesis by blast
qed

text \<open>
  C9 as stated fails in its last clause: once chunk (0,0) has been written and evicted its
  dirty flag is still set; a further eviction round writes nothing, but after a read of
  pixel (3,3), which returns red and loads the chunk again, the next eviction round writes
  the chunk a second time.
\<close>

theorem read_then_eviction_writes_counterexample:
  "edited (ctxs (unload pixel_gg 0 dotted_world) 0) \<and>
   writes (unload pixel_gg 0 dotted_world) = [''/tmp/m/0.0.png''] \<and>
   writes (unload pixel_gg 0 (unload pixel_gg 0 dotted_world)) = [''/tmp/m/0.0.png''] \<and>
   (case AtOk pixel_gg small_image 3 3 (unload pixel_gg 0 dotted_world) of
      None \<Rightarrow> False
    | Some ((c, e), w1) \<Rightarrow>
        c = red \<and> e = None \<and>
        writes (unload pixel_gg 0 w1) = [''/tmp/m/0.0.png'', ''/tmp/m/0.0.png''])"
  by (simp add: dotted_world_def Let_def op_defs geo_defs store_defs px_defs upto.simps)

section \<open>The registry of a cache (C7)\<close>

lemma Load_reg_grows:
  assumes "Load G cp x y w = (a, e, w1)"
  shows "reg_grows w w1"
  using assms by (cases rule: Load_char; auto simp: reg_grows_upd_ctx_trans reg_grows_alloc)

lemma Load_registers:
  assumes "Load G cp x y w = (a, e, w1)"
  shows "map_of (chunks (caches w1 cp)) (chunk_key (cache_root (caches w cp)) x y) = Some a"
  using assms by (cases rule: Load_char; auto simp: map_add_Some_iff)

lemma Done_reg_grows: "Done a w = Some w' \<Longrightarrow> reg_grows w w'"
  by (auto simp: Done_def split: if_splits)

lemma unloadImage_reg_grows: "unloadImage G a w = (e, w') \<Longrightarrow> reg_grows w w'"
  by (auto simp: unloadImage_def Let_def reg_grows_same split: option.splits if_splits)

lemma unload_reg_grows: "reg_grows w (unload G a w)"
proof -
  obtain e w1 where u: "unloadImage G a w = (e, w1)" by (metis prod.exhaust)
  then have "reg_grows w w1" by (rule unloadImage_reg_grows)
  moreover have "reg_grows w1 (unload G a w)"
    using u by (cases e) (simp_all add: unload_def reg_grows_same)
  ultimately show ?thesis by (rule reg_grows_trans)
qed

lemma Flush_loop_reg_grows: "Flush_loop G as w = (e, w') \<Longrightarrow> reg_grows w w'"
proof (induction as arbitrary: w)
  case Nil
  then show ?case by simp
next
  case (Cons a as)
  obtain e1 w1 where u: "unloadImage G a w = (e1, w1)" by (metis prod.exhaust)
  have g: "reg_grows w w1" using u by (rule unloadImage_reg_grows)
  show ?case
  proof (cases e1)
    case None
    then have "Flush_loop G as w1 = (e, w')" using Cons.prems u by simp
    from g Cons.IH[OF this] show ?thesis by (rule reg_grows_trans)
  next
    case (Some err)
    then show ?thesis using Cons.prems u g by simp
  qed
qed

lemma Image_Some_read_frame:
  assumes "Image G m r w = Some (res, w')"
  shows "read_frame G w w'"
proof -
  from assms obtain ks where
    "Image_loop G m r ks (NewRGBA G (Sub r (Pt (Min_X r) (Min_Y r)))) w = Some (res, w')"
    by (auto simp: Image_def split: option.splits)
  then show ?thesis
    using Image_loop_read_frame[of G m r ks "NewRGBA G (Sub r (Pt (Min_X r) (Min_Y r)))" w]
    by auto
qed

lemma Mask_Some_read_frame:
  assumes "Mask G m r w = Some (res, w')"
  shows "read_frame G w w'"
proof -
  from assms obtain ks where
    "Mask_loop G m r ks (NewAlpha G (Sub r (Pt (Min_X r) (Min_Y r)))) w = Some (res, w')"
    by (auto simp: Mask_def split: option.splits)
  then show ?thesis
    using Mask_loop_read_frame[of G m r ks "NewAlpha G (Sub r (Pt (Min_X r) (Min_Y r)))" w]
    by auto
qed

lemma AtOk_Some_read_frame:
  assumes "AtOk G m x y w = Some (res, w')"
  shows "read_frame G w w'"
proof -
  have "chunkSize m \<noteq> 0" using assms by (auto simp: AtOk_def toChunk_def split: if_splits)
  from AtOk_read_frame[OF this, of G x y w] assms show ?thesis by auto
qed

lemma read_frame_reg_grows: "read_frame G w w' \<Longrightarrow> reg_grows w w'"
  by (simp add: read_frame_def balanced_def)

lemma on_Img_reg_grows: "on_Img a f w = Some (e, w') \<Longrightarrow> reg_grows w w'"
  by (auto simp: on_Img_def split: option.splits)

lemma on_Img_edited_reg_grows: "on_Img_edited a f w = Some (e, w') \<Longrightarrow> reg_grows w w'"
  by (auto simp: on_Img_edited_def on_Img_def setEdited_def comp_def split: option.splits)

lemma apply_action_reg_grows:
  assumes "apply_action G a ox oy act w = Some (e, w')"
  shows "reg_grows w w'"
proof (cases act)
  case (setMask other)
  obtain i where i: "Img (ctxs w a) = Some i"
    using assms setMask by (auto split: option.splits)
  obtain mk me w1 where
    M: "Mask G other (Add (img_Bounds G (gg_Image G i)) (Pt ox oy)) w = Some ((mk, me), w1)"
    using assms setMask i by (auto simp: Let_def split: option.splits)
  have g: "reg_grows w w1" using Mask_Some_read_frame[OF M] by (rule read_frame_reg_grows)
  show ?thesis
  proof (cases me)
    case None
    then have "on_Img a (gg_SetMask G mk) w1 = Some (e, w')"
      using assms setMask i M by (simp add: Let_def)
    from g on_Img_reg_grows[OF this] show ?thesis by (rule reg_grows_trans)
  next
    case (Some err)
    then show ?thesis using assms setMask i M g by (simp add: Let_def)
  qed
qed (use assms on_Img_reg_grows on_Img_edited_reg_grows in auto)

lemma apply_loop_reg_grows:
  "apply_loop G a ox oy q w = Some (e, w') \<Longrightarrow> reg_grows w w'"
proof (induction q arbitrary: w)
  case Nil
  then show ?case by simp
next
  case (Cons act q)
  from Cons.prems obtain e1 w1 where
    A: "apply_action G a ox oy act w = Some (e1, w1)"
    by (auto split: option.splits)
  have g: "reg_grows w w1" using A by (rule apply_action_reg_grows)
  show ?case
  proof (cases e1)
    case None
    then have "apply_loop G a ox oy q w1 = Some (e, w')" using Cons.prems A by simp
    from g Cons.IH[OF this] show ?thesis by (rule reg_grows_trans)
  next
    case (Some err)
    then show ?thesis using Cons.prems A g by simp
  qed
qed

lemma apply_chunk_reg_grows:
  assumes "apply_chunk G o1 x y w = Some (e, w')"
  shows "reg_grows w w'"
proof -
  obtain a e1 w1 where L: "Load G (cache (parent o1)) x y w = (a, e1, w1)"
    by (metis prod_cases3)
  have g: "reg_grows w w1" using L by (rule Load_reg_grows)
  show ?thesis
  proof (cases e1)
    case (Some err)
    then have "Done a w1 = Some w'" using assms L by (auto simp: apply_chunk_def split: option.splits)
    from g Done_reg_grows[OF this] show ?thesis by (rule reg_grows_trans)
  next
    case None
    then obtain e2 w2 where
      R: "apply_loop G a (x * chunkSize (parent o1)) (y * chunkSize (parent o1)) (queue o1) w1
            = Some (e2, w2)" "Done a w2 = Some w'"
      using assms L by (auto simp: apply_chunk_def split: option.splits)
    from g apply_loop_reg_grows[OF R(1)] have "reg_grows w w2" by (rule reg_grows_trans)
    from this Done_reg_grows[OF R(2)] show ?thesis by (rule reg_grows_trans)
  qed
qed

lemma Do_worker_reg_grows:
  "Do_worker G o1 ks w = Some (errs, w') \<Longrightarrow> reg_grows w w'"
proof (induction ks arbitrary: w errs)
  case Nil
  then show ?case by simp
next
  case (Cons c ks)
  from Cons.prems obtain e1 w1 errs1 where
    A: "apply_chunk G o1 (fst c) (snd c) w = Some (e1, w1)" "Do_worker G o1 ks w1 = Some (errs1, w')"
    by (auto split: option.splits)
  from apply_chunk_reg_grows[OF A(1)] Cons.IH[OF A(2)] show ?case by (rule reg_grows_trans)
qed

lemma Do_reg_grows: "Do G o1 w = Some (e, o2, w') \<Longrightarrow> reg_grows w w'"
  using Do_worker_reg_grows[of G "clampDown o1" _ w _ w']
  by (auto simp: Do_def Let_def split: option.splits if_splits)

text \<open>The same under every schedule of the goroutines of \<open>Do\<close>.\<close>

lemma pool_step_reg_grows: "pool_step G o1 i s = Some s1 \<Longrightarrow> reg_grows (pstore s) (pstore s1)"
  by (auto simp: pool_step_def apply_chunk_reg_grows split: if_splits routine.splits list.splits option.splits)

lemma pool_run_reg_grows: "pool_run G o1 sched s = Some s' \<Longrightarrow> reg_grows (pstore s) (pstore s')"
proof (induction sched arbitrary: s)
  case Nil
  then show ?case by simp
next
  case (Cons i sched)
  from Cons.prems obtain s1 where
    S: "pool_step G o1 i s = Some s1" "pool_run G o1 sched s1 = Some s'"
    by (auto split: option.splits)
  from pool_step_reg_grows[OF S(1)] Cons.IH[OF S(2)] show ?case by (rule reg_grows_trans)
qed

lemma Do_sched_reg_grows:
  assumes "Do_sched G sched o1 w = Returned (e, o2, w')"
  shows "reg_grows w w'"
proof -
  from assms obtain work s where
    S: "pool_run G (clampDown o1) sched
          \<lparr>todo = work, workers = replicate (nat (op_routines (clampDown o1))) Receiving, got = [],
           trail = [], pstore = w\<rparr> = Some s" "w' = pstore s"
    by (auto simp: Do_sched_def Do_pool_def Let_def split: option.splits if_splits)
  from pool_run_reg_grows[OF S(1)] S(2) show ?thesis by simp
qed

lemma step_reg_grows:
  assumes "step G ev w = Some w'"
  shows "reg_grows w w'"
proof (cases ev)
  case (Ev_Load cp x y)
  then show ?thesis using assms Load_reg_grows[of G cp x y w] by (auto split: prod.splits)
next
  case (Ev_Done a)
  then show ?thesis using assms Done_reg_grows by simp
next
  case (Ev_unload a)
  then show ?thesis using assms unload_reg_grows by auto
next
  case (Ev_Flush cp)
  then show ?thesis using assms Flush_loop_reg_grows[of G _ w "fst (Flush G cp w)" w']
    by (auto simp: Flush_def)
next
  case (Ev_AtOk m x y)
  then show ?thesis using assms AtOk_Some_read_frame[of G m x y w] read_frame_reg_grows
    by fastforce
next
  case (Ev_Image m r)
  then show ?thesis using assms Image_Some_read_frame[of G m r w] read_frame_reg_grows
    by fastforce
next
  case (Ev_Mask m r)
  then show ?thesis using assms Mask_Some_read_frame[of G m r w] read_frame_reg_grows
    by fastforce
next
  case (Ev_Do o1)
  then show ?thesis using assms Do_reg_grows[of G o1 w] by fastforce
qed

lemma run_reg_grows: "run G evs w = Some w' \<Longrightarrow> reg_grows w w'"
proof (induction evs arbitrary: w)
  case Nil
  then show ?case by simp
next
  case (Cons ev evs)
  from Cons.prems obtain w1 where s: "step G ev w = Some w1" "run G evs w1 = Some w'"
    by (auto split: option.splits)
  from step_reg_grows[OF s(1)] Cons.IH[OF s(2)] show ?case by (rule reg_grows_trans)
qed

text \<open>
  C7.  After \<open>Load(x, y)\<close> on a cache has returned a context, whatever calls and
  eviction rounds follow, a later \<open>Load(x, y)\<close> on that cache returns the same context;
  no entry of any registry is removed or changed; and a registry whose keys are distinct
  (as those of a new cache are) keeps distinct keys, so that a key never has two
  contexts.
\<close>

theorem registry_only_grows:
  assumes "Load G cp x y w = (a, e, w1)" "run G evs w1 = Some w2"
  shows "fst (Load G cp x y w2) = a \<and>
     map_of (chunks (caches w2 cp)) (chunk_key (cache_root (caches w cp)) x y) = Some a \<and>
     (\<forall>cq k b. map_of (chunks (caches w cq)) k = Some b \<longrightarrow>
         map_of (chunks (caches w2 cq)) k = Some b) \<and>
     (\<forall>cq. distinct (map fst (chunks (caches w cq))) \<longrightarrow>
         distinct (map fst (chunks (caches w2 cq))))"
proof -
  have g1: "reg_grows w w1" using assms(1) by (rule Load_reg_grows)
  have g2: "reg_grows w1 w2" using assms(2) by (rule run_reg_grows)
  have g: "reg_grows w w2" using g1 g2 by (rule reg_grows_trans)
  have k: "map_of (chunks (caches w2 cp)) (chunk_key (cache_root (caches w cp)) x y) = Some a"
    using Load_registers[OF assms(1)] g2 by (simp add: reg_grows_def)
  have "cache_root (caches w2 cp) = cache_root (caches w cp)" using g by (simp add: reg_grows_def)
  then have "fst (Load G cp x y w2) = a" using k Load_hit[of w2 cp x y a G] by simp
  then show ?thesis using k g by (simp add: reg_grows_def)
qed

lemma run_example:
  "run pixel_gg [Ev_Done 0, Ev_unload 0, Ev_Do red_dot_op, Ev_Flush 0, Ev_AtOk small_image 3 3]
     (snd (snd (Load pixel_gg 0 0 0 fresh_world))) \<noteq> None"
  by (simp add: Let_def op_defs geo_defs store_defs px_defs upto.simps)

theorem registry_only_grows_witness:
  "\<exists>a e w1 w2. Load pixel_gg 0 0 0 fresh_world = (a, e, w1) \<and>
     run pixel_gg [Ev_Done 0, Ev_unload 0, Ev_Do red_dot_op, Ev_Flush 0, Ev_AtOk small_image 3 3] w1
       = Some w2 \<and>
     fst (Load pixel_gg 0 0 0 w2) = a \<and>
     map_of (chunks (caches w2 0)) (chunk_key (cache_root (caches fresh_world 0)) 0 0) = Some a"
proof -
  obtain a e w1 where L: "Load pixel_gg 0 0 0 fresh_world = (a, e, w1)"
    by (metis prod_cases3)
  then obtain w2 where R:
    "run pixel_gg [Ev_Done 0, Ev_unload 0, Ev_Do red_dot_op, Ev_Flush 0, Ev_AtOk small_image 3 3] w1
       = Some w2"
    using run_example by auto
  from registry_only_grows[OF L R] L R show ?thesis by blast
qed

section \<open>An operation that draws nothing (C10)\<close>

lemma invoke_keeps_box:
  assumes "\<not> touches_box c"
  shows "minX (invoke G c o1) = minX o1 \<and> minY (invoke G c o1) = minY o1 \<and>
         maxX (invoke G c o1) = maxX o1 \<and> maxY (invoke G c o1) = maxY o1"
  using assms by (cases c) (simp_all add: op_defs Let_def)

lemma invoke_keeps_parent:
  "parent (invoke G c o1) = parent o1 \<and> op_routines (invoke G c o1) = op_routines o1"
  by (cases c) (simp_all add: op_defs Let_def)

lemma calls_keeps_parent:
  "parent (calls G cs o1) = parent o1 \<and> op_routines (calls G cs o1) = op_routines o1"
  by (induction cs arbitrary: o1) (simp_all add: calls_Nil calls_Cons invoke_keeps_parent)

lemma calls_keeps_box:
  assumes "\<forall>c\<in>set cs. \<not> touches_box c"
  shows "minX (calls G cs o1) = minX o1 \<and> minY (calls G cs o1) = minY o1 \<and>
         maxX (calls G cs o1) = maxX o1 \<and> maxY (calls G cs o1) = maxY o1"
  using assms
  by (induction cs arbitrary: o1) (simp_all add: calls_Nil calls_Cons invoke_keeps_box)

lemma maxlineWidth_calls_bounds:
  "0 \<le> maxlineWidth (calls G cs (newOperation m)) \<and>
   maxlineWidth (calls G cs (newOperation m)) \<le> 1 \<and>
   ((\<forall>v\<in>set (widths cs). v < 1) \<longrightarrow> maxlineWidth (calls G cs (newOperation m)) < 1)"
  by (auto simp: maxlineWidth_calls_gen newOperation_def)

lemma trunc_lt_one:
  assumes "0 \<le> v" "v < 1"
  shows "trunc v = 0"
proof -
  have "\<lfloor>v\<rfloor> = 0" using assms by (intro floor_unique) simp_all
  then show ?thesis using assms by (simp add: trunc_def)
qed

lemma trunc_unit:
  assumes "0 \<le> v" "v \<le> 1"
  shows "trunc v = (if v < 1 then 0 else 1)"
proof (cases "v < 1")
  case True
  then show ?thesis using assms by (simp add: trunc_lt_one)
next
  case False
  then have "v = 1" using assms by simp
  then show ?thesis by (simp add: trunc_def)
qed

lemma trunc_pad:
  assumes "0 \<le> v" "v \<le> 1" "1 \<le> n"
  shows "n \<le> trunc (real_of_int n + 1 - v) \<and> trunc (real_of_int n + 1 - v) \<le> n + 1"
proof -
  have "0 \<le> real_of_int n + 1 - v" using assms by simp
  then have t: "trunc (real_of_int n + 1 - v) = \<lfloor>real_of_int n + 1 - v\<rfloor>"
    by (simp add: trunc_def)
  have "n \<le> \<lfloor>real_of_int n + 1 - v\<rfloor>" using assms by (simp add: le_floor_iff)
  moreover have "\<lfloor>real_of_int n + 1 - v\<rfloor> \<le> n + 1" using assms by (simp add: floor_le_iff)
  ultimately show ?thesis using t by simp
qed

lemma quo_small: "0 \<le> a \<Longrightarrow> a < b \<Longrightarrow> quo a b = 0"
  by (simp add: quo_nonneg)

lemma whole_canvas_work:
  assumes b: "bounds m = Rectangle 0 0 W H" and cs: "0 < chunkSize m"
    and t: "0 \<le> t" "t < W - 1" "t < H - 1" "quo t (chunkSize m) = 0"
    and X: "W \<le> TX" and Y: "H \<le> TY"
  shows "\<exists>work. chunksWithin m (Rect TX TY t t) = Some work \<and> distinct work \<and>
     set work = {0..quo (W - 1) (chunkSize m)} \<times> {0..quo (H - 1) (chunkSize m)} \<and>
     (\<forall>x y. 0 \<le> x \<and> x < W \<and> 0 \<le> y \<and> y < H \<longrightarrow>
        (quo x (chunkSize m), quo y (chunkSize m)) \<in> set work)"
proof -
  have r: "Rect TX TY t t = Rectangle t t TX TY" using t X Y by (simp add: Rect_def)
  have s: "sub64 0 1 = - 1" "sub64 W 1 = W - 1" "sub64 H 1 = H - 1"
    using t by (simp_all add: sub64_one)
  have i: "Intersect (Rectangle t t TX TY) (Sub (bounds m) (Pt 1 1)) = Rectangle t t (W - 1) (H - 1)"
    using b t X Y by (simp add: Intersect_def Sub_def s Empty_def Let_def)
  have w: "chunksWithin m (Rect TX TY t t) =
      Some (List.product [0..quo (W - 1) (chunkSize m)] [0..quo (H - 1) (chunkSize m)])"
    using cs t unfolding r by (simp add: chunksWithin_def i toChunk_def Empty_def Let_def)
  have cover: "(quo x (chunkSize m), quo y (chunkSize m)) \<in>
       {0..quo (W - 1) (chunkSize m)} \<times> {0..quo (H - 1) (chunkSize m)}"
    if "0 \<le> x" "x < W" "0 \<le> y" "y < H" for x y
  proof -
    have "quo 0 (chunkSize m) \<le> quo x (chunkSize m)" "quo 0 (chunkSize m) \<le> quo y (chunkSize m)"
      "quo x (chunkSize m) \<le> quo (W - 1) (chunkSize m)"
      "quo y (chunkSize m) \<le> quo (H - 1) (chunkSize m)"
      using that cs by (simp_all add: quo_mono)
    then show ?thesis by (simp add: quo_def)
  qed
  show ?thesis using w cover by (auto simp: distinct_product)
qed

text \<open>
  C10 (as amended).  Take a canvas whose Min corner is the origin, with a positive chunk
  size and at least one worker, and an operation on which no call that updates the
  bounding box has been made.  If every width passed to \<open>SetLineWidth\<close> is below 1 and
  the canvas is at least 2 by 2, or if the chunk size is at least 2 and the canvas at least
  3 by 3, then the keys \<open>Do\<close> works on are, without duplicates, the chunks of all pixels
  of the canvas, and \<open>Do\<close> applies the queue to each of them (each has a context in the
  cache afterwards).
\<close>

theorem Do_without_box_visits_every_chunk:
  fixes G :: "('c, 'p, 'a, 'g) gglib" and cs :: "('p, 'g) action list" and m :: mimage
    and w :: "('c, 'p) world"
  assumes nt: "\<forall>c\<in>set cs. \<not> touches_box c"
    and b: "bounds m = Rectangle 0 0 W H" and c0: "0 < chunkSize m"
    and sz: "(\<forall>v\<in>set (widths cs). v < 1) \<and> 2 \<le> W \<and> 2 \<le> H \<or>
             2 \<le> chunkSize m \<and> 3 \<le> W \<and> 3 \<le> H"
    and wf: "wf_world w" and mk: "masks_ok (queue (calls G cs (newOperation m)))"
    and rt: "0 < routines m"
  defines "o1 \<equiv> calls G cs (newOperation m)"
  shows "\<exists>work err w'.
     chunksWithin m (work_rect (clampDown o1)) = Some work \<and> distinct work \<and>
     set work = {0..quo (W - 1) (chunkSize m)} \<times> {0..quo (H - 1) (chunkSize m)} \<and>
     (\<forall>x y. 0 \<le> x \<and> x < W \<and> 0 \<le> y \<and> y < H \<longrightarrow>
        (quo x (chunkSize m), quo y (chunkSize m)) \<in> set work) \<and>
     Do G o1 w = Some (err, clampDown o1, w') \<and>
     length (applications G (clampDown o1) work w) = length work \<and>
     (\<forall>c\<in>set work. map_of (chunks (caches w' (cache m)))
          (chunk_key (cache_root (caches w (cache m))) (fst c) (snd c)) \<noteq> None)"
proof -
  let ?lw = "maxlineWidth o1"
  have p: "parent o1 = m" "op_routines o1 = routines m"
    using calls_keeps_parent[of G cs "newOperation m"] by (simp_all add: o1_def newOperation_def)
  have bx: "minX o1 = real_of_int W + 1" "minY o1 = real_of_int H + 1" "maxX o1 = 0" "maxY o1 = 0"
    using calls_keeps_box[OF nt, of G "newOperation m"] b
    by (simp_all add: o1_def newOperation_def Width_def Height_def)
  have lw: "0 \<le> ?lw" "?lw \<le> 1" "(\<forall>v\<in>set (widths cs). v < 1) \<Longrightarrow> ?lw < 1"
    using maxlineWidth_calls_bounds[of G cs m] by (simp_all add: o1_def)
  have WH: "2 \<le> W" "2 \<le> H" using sz by auto
  define t where "t = trunc ?lw"
  define TX where "TX = trunc (real_of_int W + 1 - ?lw)"
  define TY where "TY = trunc (real_of_int H + 1 - ?lw)"
  have wr: "work_rect (clampDown o1) = Rect TX TY t t"
    using bx lw WH p b
    by (simp add: work_rect_def clampDown_def t_def TX_def TY_def Width_def Height_def
        max_def min_def)
  have t01: "t = (if ?lw < 1 then 0 else 1)" using lw by (simp add: t_def trunc_unit)
  have t: "0 \<le> t" "t < W - 1" "t < H - 1" "quo t (chunkSize m) = 0"
    using t01 sz lw(3) c0 by (auto simp: quo_small split: if_splits)
  have X: "W \<le> TX" and Y: "H \<le> TY"
    using trunc_pad[OF lw(1,2), of W] trunc_pad[OF lw(1,2), of H] WH
    by (simp_all add: TX_def TY_def)
  from whole_canvas_work[OF b c0 t X Y] obtain work where
    W: "chunksWithin m (Rect TX TY t t) = Some work" "distinct work"
      "set work = {0..quo (W - 1) (chunkSize m)} \<times> {0..quo (H - 1) (chunkSize m)}"
      "\<forall>x y. 0 \<le> x \<and> x < W \<and> 0 \<le> y \<and> y < H \<longrightarrow>
        (quo x (chunkSize m), quo y (chunkSize m)) \<in> set work"
    by blast
  have c1: "chunkSize (parent o1) \<noteq> 0" "0 < op_routines o1" "masks_ok (queue o1)"
    using p c0 rt mk by (simp_all add: o1_def)
  from Do_ok[OF wf c1(3) c1(1) c1(2), of G] obtain work' w' where
    D: "chunksWithin (parent o1) (work_rect (clampDown o1)) = Some work'"
      "Do G o1 w = Some (checkErrors (applications G (clampDown o1) work' w), clampDown o1, w')"
      "length (applications G (clampDown o1) work' w) = length work'"
      "\<forall>c\<in>set work'. map_of (chunks (caches w' (cache (parent o1))))
          (chunk_key (cache_root (caches w (cache (parent o1)))) (fst c) (snd c)) \<noteq> None"
    by blast
  have "work' = work" using D(1) W(1) p wr by simp
  then show ?thesis using W D p wr by auto
qed

theorem Do_without_box_visits_every_chunk_witness:
  "\<not> touches_box (setColor red :: (px_image, unit) action) \<and>
   \<not> touches_box (fill :: (px_image, unit) action) \<and>
   bounds small_image = Rectangle 0 0 10 10 \<and> 0 < chunkSize small_image \<and>
   wf_world fresh_world \<and> 0 < routines small_image \<and>
   (\<exists>work err w'.
      chunksWithin small_image
        (work_rect (clampDown (calls pixel_gg [setColor red, fill] (newOperation small_image))))
        = Some work \<and>
      set work = {0..1} \<times> {0..1} \<and>
      Do pixel_gg (calls pixel_gg [setColor red, fill] (newOperation small_image)) fresh_world
        = Some (err, clampDown (calls pixel_gg [setColor red, fill] (newOperation small_image)), w') \<and>
      (\<forall>c\<in>set work. map_of (chunks (caches w' (cache small_image)))
          (chunk_key (cache_root (caches fresh_world (cache small_image))) (fst c) (snd c)) \<noteq> None))"
proof -
  let ?cs = "[setColor red, fill :: (px_image, unit) action]"
  have nt: "\<forall>c\<in>set ?cs. \<not> touches_box c" by simp
  have b: "bounds small_image = Rectangle 0 0 10 10" by (simp add: small_image_def Rect_def)
  have c0: "0 < chunkSize small_image" by (simp add: small_image_def)
  have sz: "(\<forall>v\<in>set (widths ?cs). v < 1) \<and> (2::int) \<le> 10 \<and> (2::int) \<le> 10 \<or>
             2 \<le> chunkSize small_image \<and> (3::int) \<le> 10 \<and> (3::int) \<le> 10"
    by simp
  have mk: "masks_ok (queue (calls pixel_gg ?cs (newOperation small_image)))"
    by (simp add: calls_def op_defs masks_ok_def)
  have rt: "0 < routines small_image" by (simp add: small_image_def)
  have q: "quo 9 (chunkSize small_image) = 1" by (simp add: small_image_def quo_def)
  from Do_without_box_visits_every_chunk[OF nt b c0 sz wf_fresh_world mk rt]
  show ?thesis using nt b c0 rt q by (simp del: calls_Cons) blast
qed

text \<open>
  C10 as stated fails: on a canvas of one pixel the swapped rectangle is (0,0)-(2,2) and
  covers the canvas, but \<open>chunksWithin\<close> clips it to nothing; \<open>Do\<close> with an empty
  queue visits no chunk, although pixel (0,0) lies in chunk (0,0).
\<close>

theorem Do_without_box_tiny_canvas_counterexample:
  "toChunk tiny_image 0 0 = Some (0, 0, True) \<and>
   work_rect (clampDown (newOperation tiny_image :: (px_image, unit) operation))
     = Rectangle 0 0 2 2 \<and>
   chunksWithin tiny_image
     (work_rect (clampDown (newOperation tiny_image :: (px_image, unit) operation))) = Some [] \<and>
   Do pixel_gg (newOperation tiny_image) fresh_world
     = Some (None, clampDown (newOperation tiny_image), fresh_world)"
  by (simp add: Do_def Let_def checkErrors_def tiny_image_def small_image_def op_defs geo_defs)

section \<open>Line width and padding (C1)\<close>

text \<open>
  C1 (code evaluated at the failing input).  \<open>SetLineWidth(5)\<close> on a new operation
  records the width 1, not 5, and queues 1 for replay: the method takes
  \<open>math.Min(1, w)\<close>.  The box of a path through (100, 100) is then padded by 1, to
  (99,99)-(101,101), where a stroke of width 5 reaches further.  And \<open>Do\<close> clamps the
  padded box to (0,0)-(Width,Height), which is the canvas bounds only when the Min corner
  is the origin: on the canvas (100,100)-(200,200) the box that \<open>Clear\<close> records, the
  canvas bounds, is clamped to the empty (100,100)-(100,100) and no chunk is visited.
\<close>

theorem SetLineWidth_caps_the_width:
  "maxlineWidth (SetLineWidth 5 (newOperation example_image) :: (px_image, unit) operation) = 1 \<and>
   queue (SetLineWidth 5 (newOperation example_image) :: (px_image, unit) operation) = [setLineWidth 1] \<and>
   work_rect (clampDown (MoveTo 100 100 (SetLineWidth 5 (newOperation example_image)) :: (px_image, unit) operation))
     = Rectangle 99 99 101 101 \<and>
   bounds shifted_image = Rectangle 100 100 200 200 \<and>
   work_rect (clampDown (Clear (newOperation shifted_image) :: (px_image, unit) operation))
     = Rectangle 100 100 100 100 \<and>
   chunksWithin shifted_image
     (work_rect (clampDown (Clear (newOperation shifted_image) :: (px_image, unit) operation))) = Some []"
  by (simp add: op_defs geo_defs example_image_def shifted_image_def small_image_def Let_def)

end
